theory Spec2Isabelle
  imports Main "HOL-Library.Sublist" "HOL-Library.AList"
begin

section \<open>Strings and characters\<close>

text \<open>
  A Python \<open>str\<close> is a sequence of code points. The development covers the code points
  0 to 255, which is what \<^typ>\<open>char\<close> holds; \<^typ>\<open>string\<close> is then a \<open>str\<close> over
  that range and \<open>length\<close> counts code points. The character classes below are the ones
  the interpreter uses on that range.
\<close>

definition code :: "char \<Rightarrow> nat" where
  "code c = of_char c"

definition is_space :: "char \<Rightarrow> bool" where
  \<comment> \<open>\<open>str.isspace\<close>, the set \<open>str.strip()\<close> removes and the regex class \<open>\s\<close>:
      09-0D, 1C-1F, 20, 85, A0.\<close>
  "is_space c = (let n = code c in
     (9 \<le> n \<and> n \<le> 13) \<or> (28 \<le> n \<and> n \<le> 32) \<or> n = 133 \<or> n = 160)"

definition is_digit :: "char \<Rightarrow> bool" where
  "is_digit c = (let n = code c in 48 \<le> n \<and> n \<le> 57)"

definition is_ident_start :: "char \<Rightarrow> bool" where
  \<comment> \<open>the class \<open>[A-Za-z_]\<close>\<close>
  "is_ident_start c = (let n = code c in
     (65 \<le> n \<and> n \<le> 90) \<or> (97 \<le> n \<and> n \<le> 122) \<or> n = 95)"

definition is_ident_char :: "char \<Rightarrow> bool" where
  \<comment> \<open>the class \<open>[A-Za-z0-9_]\<close>\<close>
  "is_ident_char c = (is_ident_start c \<or> is_digit c)"

definition is_word :: "char \<Rightarrow> bool" where
  \<comment> \<open>the regex class \<open>\w\<close> of a \<open>str\<close> pattern: alphanumeric code points and the
      underscore. Beyond ASCII these are AA, B2, B3, B5, B9, BA, BC-BE, C0-D6, D8-F6, F8-FF.\<close>
  "is_word c = (let n = code c in
     is_ident_char c \<or> n = 170 \<or> n = 178 \<or> n = 179 \<or> n = 181 \<or> n = 185 \<or> n = 186 \<or>
     (188 \<le> n \<and> n \<le> 190) \<or> (192 \<le> n \<and> n \<le> 214) \<or> (216 \<le> n \<and> n \<le> 246) \<or>
     (248 \<le> n \<and> n \<le> 255))"

definition lower_chr :: "char \<Rightarrow> char" where
  \<comment> \<open>the lower-case mapping of one code point: A-Z, and C0-DE except D7, each
      moved up by 32 (bit 5 set)\<close>
  "lower_chr c = (let n = code c in
     if (65 \<le> n \<and> n \<le> 90) \<or> (192 \<le> n \<and> n \<le> 222 \<and> n \<noteq> 215)
     then (case c of Char b0 b1 b2 b3 b4 b5 b6 b7 \<Rightarrow> Char b0 b1 b2 b3 b4 True b6 b7)
     else c)"

definition lower :: "string \<Rightarrow> string" where
  \<comment> \<open>\<open>str.lower()\<close>\<close>
  "lower s = map lower_chr s"

definition strip :: "string \<Rightarrow> string" where
  \<comment> \<open>\<open>str.strip()\<close>\<close>
  "strip s = rev (dropWhile is_space (rev (dropWhile is_space s)))"

definition rstrip_nl :: "string \<Rightarrow> string" where
  \<comment> \<open>\<open>str.rstrip('\n')\<close>\<close>
  "rstrip_nl s = rev (dropWhile (\<lambda>c. c = CHR 0x0A) (rev s))"

section \<open>validator.py\<close>

record ValidationResult =
  is_valid :: bool
  error_message :: "string option"

text \<open>
  \<open>int(value)\<close> on a \<open>str\<close>, base 10, as the interpreter's \<open>PyLong_FromString\<close> reads
  it: white space is skipped on both sides (the ASCII white space 09-0D and 20; the
  \<open>str\<close> front end turns the white space beyond ASCII, 85 and A0, into a blank first),
  one sign is optional, the digits may be separated by single underscores, and a
  conversion of more than \<open>int_max_str_digits\<close> digits is refused. \<open>None\<close> is the
  \<open>ValueError\<close>.
\<close>

definition int_space :: "char \<Rightarrow> bool" where
  "int_space c = (let n = code c in (9 \<le> n \<and> n \<le> 13) \<or> n = 32 \<or> n = 133 \<or> n = 160)"

definition int_max_str_digits :: nat where
  \<comment> \<open>the interpreter's default limit, \<open>sys.int_info.default_max_str_digits\<close>\<close>
  "int_max_str_digits = 4300"

definition skip_sign :: "string \<Rightarrow> string" where
  "skip_sign s = (case s of [] \<Rightarrow> [] | c # t \<Rightarrow> if c = CHR ''+'' \<or> c = CHR ''-'' then t else s)"

definition is_negative :: "string \<Rightarrow> bool" where
  "is_negative s = (case s of [] \<Rightarrow> False | c # t \<Rightarrow> c = CHR ''-'')"

fun scan_digits :: "string \<Rightarrow> bool \<Rightarrow> nat \<Rightarrow> int \<Rightarrow> (bool \<times> nat \<times> int \<times> string) option" where
  \<comment> \<open>the scanning loop: \<open>prev\<close> says that the previous character was an underscore;
      the result is the final \<open>prev\<close>, the number of digits, the value and the text left.
      \<open>None\<close>: two underscores in a row.\<close>
  "scan_digits [] prev digits acc = Some (prev, digits, acc, [])"
| "scan_digits (c # cs) prev digits acc =
     (if c = CHR ''_'' then (if prev then None else scan_digits cs True digits acc)
      else if is_digit c then scan_digits cs False (Suc digits) (acc * 10 + int (code c - 48))
      else Some (prev, digits, acc, c # cs))"

definition py_int :: "string \<Rightarrow> int option" where
  "py_int value =
     (let s1 = dropWhile int_space value;
          s2 = skip_sign s1
      in if s2 \<noteq> [] \<and> hd s2 = CHR ''_'' then None
         else case scan_digits s2 False 0 0 of
           None \<Rightarrow> None
         | Some (prev, digits, acc, rest) \<Rightarrow>
             if prev then None
             else if digits > 640 \<and> int_max_str_digits > 0 \<and> digits > int_max_str_digits then None
             else if rest = s2 then None
             else if dropWhile int_space rest \<noteq> [] then None
             else Some (if is_negative s1 then - acc else acc))"

definition validate_int :: "string \<Rightarrow> ValidationResult" where
  "validate_int value =
     (case py_int value of
        Some _ \<Rightarrow> \<lparr>is_valid = True, error_message = None\<rparr>
      | None \<Rightarrow> \<lparr>is_valid = False,
                 error_message = Some ([CHR 0x27] @ value @ [CHR 0x27] @ '' is not a valid integer'')\<rparr>)"

subsection \<open>The texts that \<open>int\<close> accepts\<close>

text \<open>
  The vocabulary in which the behaviour of \<open>validate_int\<close> is stated: \<open>int_literal\<close>
  describes the accepted texts as white space, an optional sign, groups of digits
  separated by single underscores, white space; \<open>spec_base10_integer\<close> is the
  specification's wording, an optional sign and digits.
\<close>

definition digit_or_underscore :: "char \<Rightarrow> bool" where
  "digit_or_underscore c = (is_digit c \<or> c = CHR ''_'')"

fun adjacent_underscores :: "string \<Rightarrow> bool" where
  "adjacent_underscores (a # b # cs) = ((a = CHR ''_'' \<and> b = CHR ''_'') \<or> adjacent_underscores (b # cs))"
| "adjacent_underscores _ = False"

definition count_digits :: "string \<Rightarrow> nat" where
  "count_digits b = length (filter is_digit b)"

definition digit_groups :: "string \<Rightarrow> bool" where
  "digit_groups body =
     (body \<noteq> [] \<and> (\<forall>c \<in> set body. digit_or_underscore c) \<and>
      is_digit (hd body) \<and> is_digit (last body) \<and> \<not> adjacent_underscores body)"

definition int_literal :: "string \<Rightarrow> bool" where
  "int_literal v =
     (\<exists>ws1 sign body ws2.
        v = ws1 @ sign @ body @ ws2 \<and>
        (\<forall>c \<in> set ws1. int_space c) \<and> (\<forall>c \<in> set ws2. int_space c) \<and>
        (sign = [] \<or> sign = ''+'' \<or> sign = ''-'') \<and>
        digit_groups body \<and> count_digits body \<le> int_max_str_digits)"

definition spec_base10_integer :: "string \<Rightarrow> bool" where
  "spec_base10_integer v = (let digits = skip_sign v in digits \<noteq> [] \<and> list_all is_digit digits)"

text \<open>
  \<open>urllib.parse.urlparse\<close> belongs to the standard library, not to this program, so the
  validator takes it as a parameter: \<open>Inl msg\<close> is an exception whose text is \<open>msg\<close>,
  \<open>Inr (scheme, netloc)\<close> the two components that \<open>validate_url\<close> reads.
\<close>

type_synonym urlparse = "string \<Rightarrow> string + (string \<times> string)"

definition validate_url :: "urlparse \<Rightarrow> string \<Rightarrow> ValidationResult" where
  "validate_url urlparse value =
     (case urlparse value of
        Inr (scheme, netloc) \<Rightarrow>
          if scheme \<noteq> [] \<and> netloc \<noteq> [] then \<lparr>is_valid = True, error_message = None\<rparr>
          else \<lparr>is_valid = False,
                error_message = Some ([CHR 0x27] @ value @ [CHR 0x27] @
                  '' is not a valid URL (must include scheme and domain)'')\<rparr>
      | Inl e \<Rightarrow>
          \<lparr>is_valid = False,
           error_message = Some ([CHR 0x27] @ value @ [CHR 0x27] @ '' is not a valid URL: '' @ e)\<rparr>)"

definition validate_value :: "urlparse \<Rightarrow> string \<Rightarrow> string option \<Rightarrow> ValidationResult" where
  "validate_value urlparse value validation_type =
     (case validation_type of
        None \<Rightarrow> \<lparr>is_valid = True, error_message = None\<rparr>
      | Some t \<Rightarrow>
          if t = [] then \<lparr>is_valid = True, error_message = None\<rparr>
          else let t' = strip (lower t) in
            if t' = ''int'' then validate_int value
            else if t' = ''url'' then validate_url urlparse value
            else \<lparr>is_valid = True, error_message = None\<rparr>)"

section \<open>Regular expressions\<close>

text \<open>
  The patterns of this program use literals, character classes, \<open>*\<close>, \<open>*?\<close>, \<open>+\<close> and
  \<open>?\<close> on single characters or groups, capture groups, \<open>^\<close> and \<open>$\<close>. The matcher
  below is a backtracking matcher for that fragment: \<open>rmatch r s\<close> lists the states
  reachable by matching \<open>r\<close> from state \<open>s\<close>, in the order in which the
  backtracking search of \<open>re\<close> tries them, so the head of the list is the match that
  \<open>re\<close> reports.
\<close>

datatype regex =
    Lit string                    \<comment> \<open>literal characters\<close>
  | LitI string                   \<comment> \<open>literal characters under \<open>(?i)\<close>; written in lower case\<close>
  | Cls "char \<Rightarrow> bool"            \<comment> \<open>one character of a class\<close>
  | Star "char \<Rightarrow> bool"           \<comment> \<open>\<open>c*\<close>, greedy\<close>
  | StarLazy "char \<Rightarrow> bool"       \<comment> \<open>\<open>c*?\<close>\<close>
  | Plus "char \<Rightarrow> bool"           \<comment> \<open>\<open>c+\<close>, greedy\<close>
  | Opt regex                     \<comment> \<open>\<open>(?:r)?\<close>, greedy\<close>
  | Grp nat regex                 \<comment> \<open>capture group number n\<close>
  | Seq "regex list"
  | Bos                           \<comment> \<open>\<open>^\<close>\<close>
  | Eos                           \<comment> \<open>\<open>$\<close>: the end, or just before a newline that ends the text\<close>

record mstate =
  pos :: nat
  rest :: string
  caps :: "nat \<Rightarrow> string option"

definition advance :: "nat \<Rightarrow> mstate \<Rightarrow> mstate" where
  "advance n s = s\<lparr>pos := pos s + n, rest := drop n (rest s)\<rparr>"

definition run_len :: "(char \<Rightarrow> bool) \<Rightarrow> string \<Rightarrow> nat" where
  "run_len p cs = length (takeWhile p cs)"

fun rmatch :: "regex \<Rightarrow> mstate \<Rightarrow> mstate list"
  and rmatch_seq :: "regex list \<Rightarrow> mstate \<Rightarrow> mstate list" where
  "rmatch (Lit w) s = (if take (length w) (rest s) = w then [advance (length w) s] else [])"
| "rmatch (LitI w) s =
     (if lower (take (length w) (rest s)) = w then [advance (length w) s] else [])"
| "rmatch (Cls p) s = (case rest s of [] \<Rightarrow> [] | c # _ \<Rightarrow> if p c then [advance 1 s] else [])"
| "rmatch (Star p) s = map (\<lambda>n. advance n s) (rev [0..<Suc (run_len p (rest s))])"
| "rmatch (StarLazy p) s = map (\<lambda>n. advance n s) [0..<Suc (run_len p (rest s))]"
| "rmatch (Plus p) s = map (\<lambda>n. advance n s) (rev [1..<Suc (run_len p (rest s))])"
| "rmatch (Opt r) s = rmatch r s @ [s]"
| "rmatch (Grp n r) s =
     map (\<lambda>s'. s'\<lparr>caps := (caps s')(n \<mapsto> take (pos s' - pos s) (rest s))\<rparr>) (rmatch r s)"
| "rmatch (Seq rs) s = rmatch_seq rs s"
| "rmatch Bos s = (if pos s = 0 then [s] else [])"
| "rmatch Eos s = (if rest s = [] \<or> rest s = [CHR 0x0A] then [s] else [])"
| "rmatch_seq [] s = [s]"
| "rmatch_seq (r # rs) s = concat (map (rmatch_seq rs) (rmatch r s))"

definition start_at :: "nat \<Rightarrow> string \<Rightarrow> mstate" where
  "start_at p cs = \<lparr>pos = p, rest = cs, caps = Map.empty\<rparr>"

definition first_match :: "regex \<Rightarrow> nat \<Rightarrow> string \<Rightarrow> mstate option" where
  "first_match r p cs = (case rmatch r (start_at p cs) of [] \<Rightarrow> None | m # _ \<Rightarrow> Some m)"

definition re_match :: "regex \<Rightarrow> string \<Rightarrow> mstate option" where
  \<comment> \<open>\<open>pattern.match(text)\<close>: a match that starts at position 0\<close>
  "re_match r cs = first_match r 0 cs"

fun search_from :: "regex \<Rightarrow> nat \<Rightarrow> string \<Rightarrow> mstate option" where
  "search_from r p [] = first_match r p []"
| "search_from r p (c # cs) =
     (case first_match r p (c # cs) of Some m \<Rightarrow> Some m | None \<Rightarrow> search_from r (Suc p) cs)"

definition re_search :: "regex \<Rightarrow> string \<Rightarrow> mstate option" where
  \<comment> \<open>\<open>re.search(pattern, text)\<close>: the match at the leftmost position that has one\<close>
  "re_search r cs = search_from r 0 cs"

definition group :: "mstate \<Rightarrow> nat \<Rightarrow> string option" where
  \<comment> \<open>\<open>match.group(n)\<close>; \<open>None\<close> for a group that took no part in the match\<close>
  "group m n = caps m n"

definition can_match :: "regex list \<Rightarrow> mstate \<Rightarrow> bool" where
  \<comment> \<open>the sequence has a match from the state\<close>
  "can_match rs s = (rmatch_seq rs s \<noteq> [])"

text \<open>The capture groups that occur in a pattern, and the relation between a state and a
  state reached from it by consuming input.\<close>

fun groups_of :: "regex \<Rightarrow> nat set" and groups_of_list :: "regex list \<Rightarrow> nat set" where
  "groups_of (Opt r) = groups_of r"
| "groups_of (Grp n r) = insert n (groups_of r)"
| "groups_of (Seq rs) = groups_of_list rs"
| "groups_of (Lit w) = {}"
| "groups_of (LitI w) = {}"
| "groups_of (Cls p) = {}"
| "groups_of (Star p) = {}"
| "groups_of (StarLazy p) = {}"
| "groups_of (Plus p) = {}"
| "groups_of Bos = {}"
| "groups_of Eos = {}"
| "groups_of_list [] = {}"
| "groups_of_list (r # rs) = groups_of r \<union> groups_of_list rs"

definition reaches :: "mstate \<Rightarrow> mstate \<Rightarrow> bool" where
  "reaches s m = (\<exists>n. n \<le> length (rest s) \<and> pos m = pos s + n \<and> rest m = drop n (rest s))"

definition not_newline :: "char \<Rightarrow> bool" where
  \<comment> \<open>the class \<open>.\<close>\<close>
  "not_newline c = (c \<noteq> CHR 0x0A)"

definition underscore_or_space :: "char \<Rightarrow> bool" where
  \<comment> \<open>the class \<open>[_\s]\<close>\<close>
  "underscore_or_space c = (c = CHR ''_'' \<or> is_space c)"

definition is_x :: "char \<Rightarrow> bool" where
  \<comment> \<open>the literal \<open>x\<close> under \<open>(?i)\<close>\<close>
  "is_x c = (lower_chr c = CHR ''x'')"

definition PLACEHOLDER_PATTERNS :: "regex list" where
  "PLACEHOLDER_PATTERNS =
    [Seq [LitI ''your'', Cls underscore_or_space, Star not_newline, LitI ''here''],
     Seq [LitI ''placeholder''],
     Seq [LitI ''change'', Opt (Cls underscore_or_space), LitI ''me''],
     Seq [LitI ''replace'', Opt (Cls underscore_or_space), LitI ''this''],
     Seq [LitI ''todo''],
     Seq [LitI ''xx'', Plus is_x],
     Seq [Bos, Lit ''admin123'', Eos],
     Seq [Bos, Lit ''password123'', Eos],
     Seq [Bos, Lit ''test123'', Eos],
     Seq [Bos, Lit ''secret'', Eos],
     Seq [Bos, Lit ''changeme'', Eos]]"

fun any_pattern_found :: "regex list \<Rightarrow> string \<Rightarrow> bool" where
  \<comment> \<open>the loop \<open>for pattern in ...: if re.search(pattern, value): return True\<close>\<close>
  "any_pattern_found [] value = False"
| "any_pattern_found (p # ps) value =
     (if re_search p value \<noteq> None then True else any_pattern_found ps value)"

definition is_placeholder :: "string \<Rightarrow> bool" where
  "is_placeholder value =
     (if value = [] \<or> strip value = [] then True
      else any_pattern_found PLACEHOLDER_PATTERNS value)"

subsection \<open>What the placeholder patterns find\<close>

text \<open>
  The vocabulary in which the behaviour of \<open>is_placeholder\<close> is stated: a word found in
  the value in any mix of upper and lower case; two words with at most one underscore
  or white-space character between them; \<open>your\<close>, an underscore or a white-space
  character, any characters but a newline, \<open>here\<close>; the value being a given line, with
  or without a final newline. \<open>spec_isPlaceholder\<close> is the specification's wording; its
  \<open>your...here\<close> is read as \<open>your\<close>, anything, \<open>here\<close>.
\<close>

definition contains_ci :: "string \<Rightarrow> string \<Rightarrow> bool" where
  "contains_ci w v = (\<exists>pre mid post. v = pre @ mid @ post \<and> lower mid = w)"

definition contains_ci_sep :: "string \<Rightarrow> string \<Rightarrow> string \<Rightarrow> bool" where
  "contains_ci_sep w1 w2 v =
     (\<exists>pre a sep b post. v = pre @ a @ sep @ b @ post \<and> lower a = w1 \<and> lower b = w2 \<and>
        (sep = [] \<or> (\<exists>c. sep = [c] \<and> underscore_or_space c)))"

definition contains_your_here :: "string \<Rightarrow> bool" where
  "contains_your_here v =
     (\<exists>pre a c mid b post. v = pre @ a @ [c] @ mid @ b @ post \<and> lower a = ''your'' \<and>
        underscore_or_space c \<and> CHR 0x0A \<notin> set mid \<and> lower b = ''here'')"

definition is_line :: "string \<Rightarrow> string \<Rightarrow> bool" where
  "is_line w v = (v = w \<or> v = w @ [CHR 0x0A])"

definition blank_or_underscore :: "char \<Rightarrow> bool" where
  "blank_or_underscore c = (c = CHR ''_'' \<or> c = CHR '' '')"

definition any_char :: "char \<Rightarrow> bool" where
  "any_char c = True"

definition SPEC_SUBSTRING_PATTERNS :: "regex list" where
  "SPEC_SUBSTRING_PATTERNS =
    [Seq [LitI ''your'', Star any_char, LitI ''here''],
     Seq [LitI ''placeholder''],
     Seq [LitI ''change'', Opt (Cls blank_or_underscore), LitI ''me''],
     Seq [LitI ''replace'', Opt (Cls blank_or_underscore), LitI ''this''],
     Seq [LitI ''todo''],
     Seq [LitI ''xx'', Plus is_x]]"

definition PLACEHOLDER_LITERALS :: "string list" where
  "PLACEHOLDER_LITERALS = [''admin123'', ''password123'', ''test123'', ''secret'', ''changeme'']"

definition spec_isPlaceholder :: "string \<Rightarrow> bool" where
  "spec_isPlaceholder value =
     (value = [] \<or> strip value = [] \<or>
      any_pattern_found SPEC_SUBSTRING_PATTERNS value \<or>
      value \<in> set PLACEHOLDER_LITERALS)"

definition hint_pattern :: regex where
  \<comment> \<open>the pattern \<open>\((\w+)\)\<close>\<close>
  "hint_pattern = Seq [Lit ''('', Grp 1 (Plus is_word), Lit '')'']"

definition extract_validation_type :: "string option \<Rightarrow> string option" where
  "extract_validation_type comment =
     (case comment of
        None \<Rightarrow> None
      | Some c \<Rightarrow>
          if c = [] then None
          else (case re_search hint_pattern c of
                  Some m \<Rightarrow> group m 1
                | None \<Rightarrow> None))"

subsection \<open>The first parenthesised word of a comment\<close>

text \<open>
  The vocabulary in which the behaviour of \<open>extract_validation_type\<close> is stated: a token
  \<open>(word)\<close> stands in \<open>c\<close> after the prefix \<open>pre\<close>; the first token is the one with
  the shortest prefix. \<open>first_paren_word\<close> finds it by scanning from the left.
\<close>

definition token_at :: "string \<Rightarrow> string \<Rightarrow> string \<Rightarrow> bool" where
  "token_at c pre w =
     ((\<exists>post. c = pre @ ''('' @ w @ '')'' @ post) \<and> w \<noteq> [] \<and> (\<forall>x \<in> set w. is_word x))"

definition first_token :: "string \<Rightarrow> string \<Rightarrow> bool" where
  "first_token c w =
     (\<exists>pre. token_at c pre w \<and> (\<forall>pre' w'. token_at c pre' w' \<longrightarrow> length pre \<le> length pre'))"

definition token_here :: "string \<Rightarrow> string option" where
  "token_here cs =
     (case cs of
        [] \<Rightarrow> None
      | c # t \<Rightarrow>
          let k = run_len is_word t in
          if c = CHR ''('' \<and> k \<ge> 1 \<and> take 1 (drop k t) = '')'' then Some (take k t) else None)"

fun first_paren_word :: "string \<Rightarrow> string option" where
  "first_paren_word [] = None"
| "first_paren_word (c # cs) =
     (case token_here (c # cs) of Some w \<Rightarrow> Some w | None \<Rightarrow> first_paren_word cs)"


definition spec_extractValidationHint :: "string option \<Rightarrow> string option" where
  \<comment> \<open>the specification's wording: the lower-case contents of the first token\<close>
  "spec_extractValidationHint comment =
     (case comment of None \<Rightarrow> None | Some c \<Rightarrow> map_option lower (first_paren_word c))"

section \<open>parser.py\<close>

record EnvEntry =
  entry_key :: string
  entry_value :: string
  entry_comment :: "string option"

text \<open>
  A \<open>dict\<close> keeps its keys in insertion order, and storing under a key that is already
  there keeps that key's place: that is an association list with
  \<^const>\<open>AList.update\<close>.
\<close>

type_synonym 'v dict = "(string \<times> 'v) list"

definition not_hash :: "char \<Rightarrow> bool" where
  \<comment> \<open>the class \<open>[^#]\<close>\<close>
  "not_hash c = (c \<noteq> CHR ''#'')"

definition ENV_LINE_PATTERN :: regex where
  "ENV_LINE_PATTERN =
     Seq [Bos, Star is_space,
          Grp 1 (Seq [Cls is_ident_start, Star is_ident_char]),
          Star is_space, Lit ''='', Star is_space,
          Grp 2 (StarLazy not_hash),
          Opt (Seq [Star is_space, Lit ''#'', Star is_space, Grp 3 (Star not_newline)]),
          Eos]"

definition comment_part :: regex where
  \<comment> \<open>the optional part \<open>(?:\s*#\s*(.*))?\<close> of the line pattern, without its \<open>?\<close>\<close>
  "comment_part = Seq [Star is_space, Lit ''#'', Star is_space, Grp 3 (Star not_newline)]"

definition unquote_value :: "string \<Rightarrow> string" where
  "unquote_value value =
     (if length value \<ge> 2 then
        (if (hd value = CHR 0x22 \<and> last value = CHR 0x22) \<or>
            (hd value = CHR 0x27 \<and> last value = CHR 0x27)
         then butlast (tl value) else value)
      else value)"

definition format_entry :: "string \<Rightarrow> string \<Rightarrow> string" where
  "format_entry key value =
     (let value' = (if CHR '' '' \<in> set value \<or>
                       list_ex (\<lambda>char. char \<in> set value) [CHR ''#'', CHR ''$'', CHR 0x5C]
                    then [CHR 0x22] @ value @ [CHR 0x22] else value)
      in key @ ''='' @ value')"

definition parse_line :: "EnvEntry dict \<Rightarrow> string \<Rightarrow> EnvEntry dict" where
  \<comment> \<open>the body of the loop over the lines of the file. Groups 1 and 2 take part in
      every match of the pattern (lemma \<open>env_line_groups\<close>), so the last case is
      never taken.\<close>
  "parse_line entries line0 =
     (let line = rstrip_nl line0 in
      if strip line = [] \<or> hd (strip line) = CHR ''#'' then entries
      else case re_match ENV_LINE_PATTERN line of
        None \<Rightarrow> entries
      | Some m \<Rightarrow>
          (case (group m 1, group m 2) of
             (Some key, Some g2) \<Rightarrow>
               let value = strip g2;
                   comment = (case group m 3 of
                                None \<Rightarrow> None
                              | Some g3 \<Rightarrow> if g3 = [] then None else Some (strip g3));
                   value = unquote_value value
               in AList.update key
                    \<lparr>entry_key = key, entry_value = value, entry_comment = comment\<rparr> entries
           | _ \<Rightarrow> entries))"

text \<open>
  The file system is a map from paths to the text of the files. A file opened in text
  mode is read with universal newlines (\<open>\r\n\<close> and \<open>\r\<close> arrive as \<open>\n\<close>) and
  iterated line by line, each line with its \<open>\n\<close>; text is written as it is
  (\<open>os.linesep\<close> is \<open>\n\<close>).
\<close>

type_synonym path = string
type_synonym fs = "path \<Rightarrow> string option"

fun universal_newlines :: "string \<Rightarrow> string" where
  "universal_newlines [] = []"
| "universal_newlines [c] = (if c = CHR 0x0D then [CHR 0x0A] else [c])"
| "universal_newlines (c # d # cs) =
     (if c = CHR 0x0D then
        (if d = CHR 0x0A then CHR 0x0A # universal_newlines cs
         else CHR 0x0A # universal_newlines (d # cs))
      else c # universal_newlines (d # cs))"

fun file_lines :: "string \<Rightarrow> string list" where
  "file_lines [] = []"
| "file_lines (c # cs) =
     (if c = CHR 0x0A then [c] # file_lines cs
      else case file_lines cs of [] \<Rightarrow> [[c]] | l # ls \<Rightarrow> (c # l) # ls)"

definition read_lines :: "string \<Rightarrow> string list" where
  "read_lines text = file_lines (universal_newlines text)"

definition parse_file :: "fs \<Rightarrow> path \<Rightarrow> EnvEntry dict" where
  "parse_file files file_path =
     (case files file_path of
        None \<Rightarrow> []
      | Some text \<Rightarrow> foldl parse_line [] (read_lines text))"

definition no_hash_values :: "EnvEntry dict \<Rightarrow> bool" where
  "no_hash_values entries = (\<forall>(k, e) \<in> set entries. CHR ''#'' \<notin> set (entry_value e))"

text \<open>
  The vocabulary of the round trip: a key that matches \<open>[A-Za-z_][A-Za-z0-9_]*\<close>, and a
  value that \<open>format_entry\<close> writes without quotes.
\<close>

definition is_identifier :: "string \<Rightarrow> bool" where
  "is_identifier key =
     (key \<noteq> [] \<and> is_ident_start (hd key) \<and> (\<forall>c \<in> set (tl key). is_ident_char c))"

definition needs_no_quoting :: "string \<Rightarrow> bool" where
  "needs_no_quoting value =
     (CHR '' '' \<notin> set value \<and> CHR ''#'' \<notin> set value \<and> CHR ''$'' \<notin> set value \<and>
      CHR 0x5C \<notin> set value)"

section \<open>audit.py\<close>

fun reason_of_patterns :: "regex list \<Rightarrow> string \<Rightarrow> string" where
  \<comment> \<open>the loop of \<open>_get_placeholder_reason\<close> and the return after it\<close>
  "reason_of_patterns [] value = ''Suspicious value''"
| "reason_of_patterns (p # ps) value =
     (if re_search p value \<noteq> None then ''Contains placeholder text''
      else reason_of_patterns ps value)"

definition get_placeholder_reason :: "string \<Rightarrow> string" where
  "get_placeholder_reason value =
     (if value = [] \<or> strip value = [] then ''Empty value''
      else reason_of_patterns PLACEHOLDER_PATTERNS value)"

fun find_placeholder_values :: "EnvEntry dict \<Rightarrow> (string \<times> string \<times> string) list" where
  "find_placeholder_values [] = []"
| "find_placeholder_values ((key, entry) # entries) =
     (if is_placeholder (entry_value entry)
      then (key, entry_value entry, get_placeholder_reason (entry_value entry)) #
           find_placeholder_values entries
      else find_placeholder_values entries)"

section \<open>sync.py\<close>

text \<open>
  \<open>sync\<close> talks to the user through the library rich. \<open>Prompt.ask\<close> reads from the
  user: the answers still to come are a list, an answer is taken from its head, and
  asking when none is left is the \<open>EOFError\<close> of a closed input. What the console shows
  has no part in the result, but rich reads every text as console markup and raises
  \<open>MarkupError\<close> on a text it cannot read, for instance a value \<open>[/x]\<close> in a table
  cell. Which texts rich can read is the library's business, so the console is a
  parameter: it says of each call whether the call returns (\<open>True\<close>) or raises
  \<open>MarkupError\<close> (\<open>False\<close>). The calls modelled are the ones whose text holds data
  from the files, the paths or the user. The other calls print a fixed, well-formed
  text (the panels, the blank lines, the question \<open>Proceed with sync?\<close>, the
  cancellation, the summary with its count); they return and are left out. The
  exceptions that can leave \<open>sync\<close> are values of \<open>error\<close>.
\<close>

datatype error = EOFError | SameFileError | KeyError | MarkupError

datatype console_call =
    Print string
      \<comment> \<open>\<open>console.print(text)\<close>\<close>
  | PrintTable "(string \<times> string \<times> string) list"
      \<comment> \<open>\<open>console.print(table)\<close>, the table holding these rows of three cells\<close>
  | Ask string
      \<comment> \<open>\<open>Prompt.ask(prompt_text)\<close>, up to the point where it waits for the answer\<close>
  | PrintFailure string
      \<comment> \<open>\<open>console.print\<close> of a red cross mark followed by this message (the mark is a
          fixed character outside the alphabet of this development)\<close>

type_synonym console = "console_call \<Rightarrow> bool"

definition find_missing_keys :: "EnvEntry dict \<Rightarrow> EnvEntry dict \<Rightarrow> string list" where
  "find_missing_keys example_entries env_entries =
     filter (\<lambda>key. map_of env_entries key = None) (map fst example_entries)"

fun table_rows :: "string list \<Rightarrow> EnvEntry dict \<Rightarrow> error + (string \<times> string \<times> string) list" where
  \<comment> \<open>the loop of \<open>_display_missing_keys\<close>: one \<open>add_row\<close> per missing key\<close>
  "table_rows [] example_entries = Inr []"
| "table_rows (key # missing_keys) example_entries =
     (case map_of example_entries key of
        None \<Rightarrow> Inl KeyError
      | Some entry \<Rightarrow>
          let validation_type = extract_validation_type (entry_comment entry);
              validation_str = (case validation_type of
                                  None \<Rightarrow> ''-''
                                | Some t \<Rightarrow> if t = [] then ''-'' else ''('' @ t @ '')'')
          in (case table_rows missing_keys example_entries of
                Inl e \<Rightarrow> Inl e
              | Inr rows \<Rightarrow> Inr ((key, entry_value entry, validation_str) # rows)))"

definition display_missing_keys :: "console \<Rightarrow> string list \<Rightarrow> EnvEntry dict \<Rightarrow> error + unit" where
  "display_missing_keys console missing_keys example_entries =
     (case table_rows missing_keys example_entries of
        Inl e \<Rightarrow> Inl e
      | Inr rows \<Rightarrow> if console (PrintTable rows) then Inr () else Inl MarkupError)"

definition confirm_sync :: "string list \<Rightarrow> error + (bool \<times> string list)" where
  "confirm_sync answers =
     (case answers of
        [] \<Rightarrow> Inl EOFError
      | response # answers' \<Rightarrow> Inr (lower response = ''y'', answers'))"

definition create_backup :: "console \<Rightarrow> fs \<Rightarrow> path \<Rightarrow> path option \<Rightarrow> error + fs" where
  \<comment> \<open>\<open>shutil.copy2\<close> refuses to copy a file onto itself; the notice is printed after
      the copy\<close>
  "create_backup console files env_path backup_path =
     (case files env_path of
        None \<Rightarrow> Inr files
      | Some text \<Rightarrow>
          let backup_path' = (case backup_path of None \<Rightarrow> env_path @ ''.bak'' | Some b \<Rightarrow> b)
          in if backup_path' = env_path then Inl SameFileError
             else if console (Print (''[dim]Created backup at '' @ backup_path' @ ''[/dim]''))
                  then Inr (files(backup_path' \<mapsto> text))
                  else Inl MarkupError)"

definition prompt_text :: "string \<Rightarrow> string \<Rightarrow> string option \<Rightarrow> string" where
  "prompt_text key example_value validation_type =
     (let validation_hint = (case validation_type of
                               None \<Rightarrow> []
                             | Some t \<Rightarrow> if t = [] then []
                                         else '' [magenta]('' @ t @ '')[/magenta]'')
      in ''[cyan]'' @ key @ ''[/cyan]'' @ validation_hint @
         '' [dim](example: '' @ example_value @ '')[/dim]'')"

definition failure_message :: "ValidationResult \<Rightarrow> string" where
  \<comment> \<open>\<open>result.error_message\<close> as the f-string formats it\<close>
  "failure_message result = (case error_message result of None \<Rightarrow> ''None'' | Some m \<Rightarrow> m)"

fun prompt_for_value ::
  "console \<Rightarrow> urlparse \<Rightarrow> string \<Rightarrow> string \<Rightarrow> string option \<Rightarrow> string list
     \<Rightarrow> error + (string \<times> string list)" where
  \<comment> \<open>the loop \<open>while True\<close>: one answer per round, until one validates\<close>
  "prompt_for_value console urlparse key example_value validation_type [] =
     (if console (Ask (prompt_text key example_value validation_type)) then Inl EOFError
      else Inl MarkupError)"
| "prompt_for_value console urlparse key example_value validation_type (value # answers) =
     (if \<not> console (Ask (prompt_text key example_value validation_type)) then Inl MarkupError
      else let result = validate_value urlparse value validation_type in
        if is_valid result then Inr (value, answers)
        else if \<not> console (PrintFailure (failure_message result)) then Inl MarkupError
        else prompt_for_value console urlparse key example_value validation_type answers)"

fun collect_values ::
  "console \<Rightarrow> urlparse \<Rightarrow> string list \<Rightarrow> EnvEntry dict \<Rightarrow> string dict \<Rightarrow> string list
     \<Rightarrow> error + (string dict \<times> string list)" where
  \<comment> \<open>the loop over the missing keys; \<open>new_entries\<close> is the dictionary built so far\<close>
  "collect_values console urlparse [] example_entries new_entries answers =
     Inr (new_entries, answers)"
| "collect_values console urlparse (key # missing_keys) example_entries new_entries answers =
     (case map_of example_entries key of
        None \<Rightarrow> Inl KeyError
      | Some entry \<Rightarrow>
          (case prompt_for_value console urlparse key (entry_value entry)
                  (extract_validation_type (entry_comment entry)) answers of
             Inl e \<Rightarrow> Inl e
           | Inr (value, answers') \<Rightarrow>
               collect_values console urlparse missing_keys example_entries
                 (AList.update key value new_entries) answers'))"

definition appended_text :: "string \<Rightarrow> string dict \<Rightarrow> string" where
  \<comment> \<open>what \<open>_append_to_env\<close> writes after the text \<open>old\<close> that the file holds\<close>
  "appended_text old new_entries =
     (if old \<noteq> [] then [CHR 0x0A] else []) @ ''# Added by Henvdall'' @ [CHR 0x0A] @
     concat (map (\<lambda>(key, value). format_entry key value @ [CHR 0x0A]) new_entries)"

definition append_to_env :: "fs \<Rightarrow> path \<Rightarrow> string dict \<Rightarrow> fs" where
  "append_to_env files env_path new_entries =
     (let old = (case files env_path of None \<Rightarrow> [] | Some text \<Rightarrow> text)
      in files(env_path \<mapsto> old @ appended_text old new_entries))"

definition sync ::
  "console \<Rightarrow> urlparse \<Rightarrow> fs \<Rightarrow> string list \<Rightarrow> path \<Rightarrow> path \<Rightarrow> path option
     \<Rightarrow> error + (bool \<times> fs \<times> string list)" where
  \<comment> \<open>the result: what \<open>sync\<close> returns, the file system and the answers left\<close>
  "sync console urlparse files answers example_path env_path backup_path =
     (if files example_path = None then
        (if console (Print (''[red]Error:[/red] .env.example file not found at '' @ example_path))
         then Inr (False, files, answers) else Inl MarkupError)
      else
        let example_entries = parse_file files example_path;
            env_entries = parse_file files env_path;
            missing_keys = find_missing_keys example_entries env_entries
        in if missing_keys = [] then Inr (False, files, answers)
           else
             (case display_missing_keys console missing_keys example_entries of
                Inl e \<Rightarrow> Inl e
              | Inr _ \<Rightarrow>
                  (case confirm_sync answers of
                     Inl e \<Rightarrow> Inl e
                   | Inr (confirmed, answers1) \<Rightarrow>
                       if \<not> confirmed then Inr (False, files, answers1)
                       else
                         (case create_backup console files env_path backup_path of
                            Inl e \<Rightarrow> Inl e
                          | Inr files1 \<Rightarrow>
                              (case collect_values console urlparse missing_keys example_entries
                                      [] answers1 of
                                 Inl e \<Rightarrow> Inl e
                               | Inr (new_entries, answers2) \<Rightarrow>
                                   Inr (True, append_to_env files1 env_path new_entries,
                                        answers2))))))"

definition hint_ok :: "urlparse \<Rightarrow> EnvEntry dict \<Rightarrow> string \<times> string \<Rightarrow> bool" where
  \<comment> \<open>the value of the pair \<open>(key, value)\<close> is valid for the hint in the comment that the
      template has for the key\<close>
  "hint_ok urlparse example_entries kv =
     (case map_of example_entries (fst kv) of
        None \<Rightarrow> False
      | Some entry \<Rightarrow>
          is_valid (validate_value urlparse (snd kv)
                      (extract_validation_type (entry_comment entry))))"

section \<open>A small installation, for the examples\<close>

definition example_files :: fs where
  "example_files =
     (\<lambda>p. if p = ''.env.example'' then Some ''HOST=localhost\<newline>PORT=3000  # (int)\<newline>''
          else if p = ''.env'' then Some ''HOST=example.org\<newline>''
          else None)"

definition plain_console :: console where
  \<comment> \<open>a console on which every call returns\<close>
  "plain_console = (\<lambda>call. True)"

definition strict_console :: console where
  \<comment> \<open>a console that cannot show a table with the cell \<open>[/x]\<close>\<close>
  "strict_console = (\<lambda>call. case call of
       PrintTable rows \<Rightarrow> \<not> list_ex (\<lambda>(key, value, hint). value = ''[/x]'') rows
     | _ \<Rightarrow> True)"

definition no_urlparse :: urlparse where
  \<comment> \<open>a \<open>urlparse\<close> that finds no scheme and no network location\<close>
  "no_urlparse = (\<lambda>u. Inr ([], []))"

section \<open>The result invariant\<close>

lemma validate_int_inv:
  "(error_message (validate_int value) \<noteq> None) = (\<not> is_valid (validate_int value))"
  by (simp add: validate_int_def split: option.splits)

lemma validate_url_inv:
  "(error_message (validate_url up value) \<noteq> None) = (\<not> is_valid (validate_url up value))"
  by (simp add: validate_url_def split: sum.splits prod.splits)

lemma validate_value_inv:
  "(error_message (validate_value up value t) \<noteq> None) = (\<not> is_valid (validate_value up value t))"
  using validate_int_inv [of "value"] validate_url_inv [of up "value"]
  by (simp add: validate_value_def Let_def split: option.splits)

text \<open>
  C9. Every result of \<open>validate_int\<close>, \<open>validate_url\<close> and \<open>validate_value\<close>, for any
  value, any hint (absent, empty, known or unknown) and any behaviour of \<open>urlparse\<close>,
  carries an error message if and only if it is not valid.
\<close>

theorem validation_result_invariant:
  "((error_message (validate_int v) \<noteq> None) = (\<not> is_valid (validate_int v))) \<and>
   ((error_message (validate_url up v) \<noteq> None) = (\<not> is_valid (validate_url up v))) \<and>
   ((error_message (validate_value up v hint) \<noteq> None) = (\<not> is_valid (validate_value up v hint)))"
  using validate_int_inv [of v] validate_url_inv [of up v] validate_value_inv [of up v hint]
  by blast

theorem validation_result_invariant_witness:
  "error_message (validate_int ''abc'') \<noteq> None \<and> \<not> is_valid (validate_int ''abc'') \<and>
   error_message (validate_url (\<lambda>u. Inr ([], [])) ''abc'') \<noteq> None \<and>
   error_message (validate_value (\<lambda>u. Inr ([], [])) ''42'' (Some '' INT'')) = None \<and>
   is_valid (validate_value (\<lambda>u. Inr ([], [])) ''42'' (Some '' INT''))"
proof -
  have a: "\<not> is_valid (validate_int ''abc'')" by code_simp
  have b: "\<not> is_valid (validate_url (\<lambda>u. Inr ([], [])) ''abc'')" by (simp add: validate_url_def)
  have c: "is_valid (validate_value (\<lambda>u. Inr ([], [])) ''42'' (Some '' INT''))" by code_simp
  show ?thesis
    using a b c validation_result_invariant [of "''abc''" "\<lambda>u. Inr ([], [])" "None"]
      validation_result_invariant [of "''42''" "\<lambda>u. Inr ([], [])" "Some '' INT''"]
    by blast
qed

section \<open>The reason given by the auditor\<close>

lemma reason_of_patterns_found:
  "any_pattern_found ps v \<Longrightarrow> reason_of_patterns ps v = ''Contains placeholder text''"
  by (induction ps) (auto split: if_splits)

text \<open>
  C8. For every value that \<open>is_placeholder\<close> flags, \<open>_get_placeholder_reason\<close> answers
  "Empty value" or "Contains placeholder text": it runs the same two tests in the same
  order, so its last branch, "Suspicious value", is never reached.
\<close>

theorem placeholder_reason_not_suspicious:
  "is_placeholder v \<Longrightarrow>
     (get_placeholder_reason v = ''Empty value'' \<or>
      get_placeholder_reason v = ''Contains placeholder text'') \<and>
     get_placeholder_reason v \<noteq> ''Suspicious value''"
  by (auto simp: is_placeholder_def get_placeholder_reason_def reason_of_patterns_found
           split: if_splits)

theorem placeholder_reason_not_suspicious_witness:
  "is_placeholder ''your_key_here'' \<and>
   get_placeholder_reason ''your_key_here'' = ''Contains placeholder text'' \<and>
   is_placeholder ''  '' \<and> get_placeholder_reason ''  '' = ''Empty value''"
proof -
  have a: "is_placeholder ''your_key_here''" by code_simp
  have b: "is_placeholder ''  ''" by code_simp
  have c: "get_placeholder_reason ''your_key_here'' \<noteq> ''Empty value''" by code_simp
  have d: "get_placeholder_reason ''  '' \<noteq> ''Contains placeholder text''" by code_simp
  show ?thesis
    using a b c d placeholder_reason_not_suspicious [OF a] placeholder_reason_not_suspicious [OF b]
    by blast
qed

section \<open>The sync workflow\<close>

lemma parse_line_distinct:
  "distinct (map fst entries) \<Longrightarrow> distinct (map fst (parse_line entries line))"
  by (simp add: parse_line_def Let_def distinct_update split: option.splits prod.splits)

lemma foldl_parse_line_distinct:
  "distinct (map fst entries) \<Longrightarrow> distinct (map fst (foldl parse_line entries ls))"
  by (induction ls arbitrary: entries) (simp_all add: parse_line_distinct)

lemma parse_file_distinct: "distinct (map fst (parse_file files p))"
  by (simp add: parse_file_def foldl_parse_line_distinct split: option.splits)

text \<open>
  C6. For dictionaries \<open>template\<close> and \<open>actual\<close> (the keys of a dictionary are distinct,
  which \<open>parse_file_distinct\<close> shows of every parsed file), the list of missing keys
  holds exactly the keys of \<open>template\<close> that \<open>actual\<close> lacks, each once, in the order
  in which \<open>template\<close> holds them.
\<close>

theorem find_missing_keys_exact:
  "distinct (map fst template) \<Longrightarrow>
     set (find_missing_keys template actual) = fst ` set template - fst ` set actual \<and>
     distinct (find_missing_keys template actual) \<and>
     subseq (find_missing_keys template actual) (map fst template)"
  by (auto simp: find_missing_keys_def map_of_eq_None_iff)

lemma example_missing:
  "find_missing_keys (parse_file example_files ''.env.example'') (parse_file example_files ''.env'')
     = [''PORT'']"
  by code_simp

theorem find_missing_keys_exact_witness:
  "distinct (map fst (parse_file example_files ''.env.example'')) \<and>
   set (find_missing_keys (parse_file example_files ''.env.example'')
          (parse_file example_files ''.env'')) =
     fst ` set (parse_file example_files ''.env.example'') -
     fst ` set (parse_file example_files ''.env'') \<and>
   find_missing_keys (parse_file example_files ''.env.example'')
          (parse_file example_files ''.env'') = [''PORT'']"
  using find_missing_keys_exact [OF parse_file_distinct [of example_files "''.env.example''"],
          of "parse_file example_files ''.env''"]
        parse_file_distinct [of example_files "''.env.example''"] example_missing
  by blast

lemma sync_table_not_shown:
  assumes "files example_path \<noteq> None"
    and "find_missing_keys (parse_file files example_path) (parse_file files env_path) \<noteq> []"
    and "display_missing_keys console
           (find_missing_keys (parse_file files example_path) (parse_file files env_path))
           (parse_file files example_path) = Inl e"
  shows "sync console up files answers example_path env_path backup_path = Inl e"
proof -
  from assms(1) obtain t where "files example_path = Some t" by blast
  then show ?thesis using assms(2,3) by (simp add: sync_def Let_def)
qed


lemma example_rows:
  "table_rows [''PORT''] (parse_file example_files ''.env.example'') =
     Inr [(''PORT'', ''3000'', ''(int)'')]"
  by code_simp

lemma example_display:
  "display_missing_keys plain_console
     (find_missing_keys (parse_file example_files ''.env.example'')
        (parse_file example_files ''.env''))
     (parse_file example_files ''.env.example'') = Inr ()"
  by (simp add: example_missing display_missing_keys_def example_rows plain_console_def
        del: table_rows.simps)


lemma prompt_for_value_valid:
  "prompt_for_value console up key ex vt answers = Inr (v, answers') \<Longrightarrow>
     is_valid (validate_value up v vt)"
proof (induction answers)
  case Nil
  then show ?case by (simp split: if_splits)
next
  case (Cons a answers)
  show ?case
  proof (cases "is_valid (validate_value up a vt)")
    case True
    with Cons.prems show ?thesis by (simp add: Let_def split: if_splits)
  next
    case False
    with Cons.prems have "prompt_for_value console up key ex vt answers = Inr (v, answers')"
      by (simp add: Let_def split: if_splits)
    then show ?thesis by (rule Cons.IH)
  qed
qed

lemma set_update_cases: "x \<in> set (AList.update k v al) \<Longrightarrow> x = (k, v) \<or> x \<in> set al"
  by (induction al) (auto split: if_splits)

lemma collect_values_valid:
  "collect_values console up ks ex new answers = Inr (new', answers') \<Longrightarrow>
   \<forall>kv \<in> set new. hint_ok up ex kv \<Longrightarrow>
   \<forall>kv \<in> set new'. hint_ok up ex kv"
proof (induction ks arbitrary: new answers)
  case Nil
  then show ?case by simp
next
  case (Cons k ks)
  note prem = Cons.prems(1) [unfolded collect_values.simps]
  from prem obtain entry where e: "map_of ex k = Some entry"
    by (cases "map_of ex k") simp_all
  define pv where "pv = prompt_for_value console up k (entry_value entry)
    (extract_validation_type (entry_comment entry)) answers"
  from prem e have prem2: "(case pv of Inl e \<Rightarrow> Inl e
           | Inr (value, answers') \<Rightarrow>
               collect_values console up ks ex (AList.update k value new) answers') =
           Inr (new', answers')"
    by (simp add: pv_def)
  then obtain v a1 where p: "pv = Inr (v, a1)"
    by (cases pv) auto
  from prem2 p have
    r: "collect_values console up ks ex (AList.update k v new) a1 = Inr (new', answers')"
    by simp
  have kv_ok: "hint_ok up ex (k, v)"
    using e prompt_for_value_valid [OF p [unfolded pv_def]] by (simp add: hint_ok_def)
  have "\<forall>kv \<in> set (AList.update k v new). hint_ok up ex kv"
  proof
    fix kv assume "kv \<in> set (AList.update k v new)"
    then have "kv = (k, v) \<or> kv \<in> set new" by (rule set_update_cases)
    then show "hint_ok up ex kv" using kv_ok Cons.prems(2) by auto
  qed
  then show ?case by (rule Cons.IH [OF r])
qed

lemma create_backup_env:
  "create_backup console files env_path backup_path = Inr files1 \<Longrightarrow>
     files1 env_path = files env_path"
  by (cases "files env_path") (auto simp: create_backup_def Let_def split: if_splits)

lemma sync_True_parts:
  assumes "sync console up files answers example_path env_path backup_path =
             Inr (True, files', answers')"
  shows "\<exists>files1 new_entries a1.
    create_backup console files env_path backup_path = Inr files1 \<and>
    collect_values console up
          (find_missing_keys (parse_file files example_path) (parse_file files env_path))
          (parse_file files example_path) [] a1 = Inr (new_entries, answers') \<and>
    files' = append_to_env files1 env_path new_entries"
proof -
  define ms where
    "ms = find_missing_keys (parse_file files example_path) (parse_file files env_path)"
  define ex where "ex = parse_file files example_path"
  define R where "R = sync console up files answers example_path env_path backup_path"
  define K where "K = (case confirm_sync answers of
             Inl e \<Rightarrow> Inl e
           | Inr (confirmed, answers1) \<Rightarrow>
               if \<not> confirmed then Inr (False, files, answers1)
               else
                 (case create_backup console files env_path backup_path of
                    Inl e \<Rightarrow> Inl e
                  | Inr files1 \<Rightarrow>
                      (case collect_values console up ms ex [] answers1 of
                         Inl e \<Rightarrow> Inl e
                       | Inr (new_entries, answers2) \<Rightarrow>
                           Inr (True, append_to_env files1 env_path new_entries, answers2))))"
  have s: "R =
     (if files example_path = None then
        (if console (Print (''[red]Error:[/red] .env.example file not found at '' @ example_path))
         then Inr (False, files, answers) else Inl MarkupError)
      else if ms = [] then Inr (False, files, answers)
           else (case display_missing_keys console ms ex of Inl e \<Rightarrow> Inl e | Inr _ \<Rightarrow> K))"
    unfolding R_def ms_def ex_def K_def by (simp add: sync_def Let_def)
  have r: "R = Inr (True, files', answers')" using assms by (simp add: R_def)
  from s r have n1: "files example_path \<noteq> None" "ms \<noteq> []"
    by (auto split: if_splits)
  from s r n1 have k: "K = Inr (True, files', answers')"
    by (cases "display_missing_keys console ms ex") auto
  from k obtain a1 where c1: "confirm_sync answers = Inr (True, a1)"
    unfolding K_def by (cases "confirm_sync answers") (auto split: if_splits)
  from k c1 obtain files1 where
    c2: "create_backup console files env_path backup_path = Inr files1"
    unfolding K_def by (cases "create_backup console files env_path backup_path") auto
  from k c1 c2 obtain new_entries where
    c3: "collect_values console up ms ex [] a1 = Inr (new_entries, answers')"
      "files' = append_to_env files1 env_path new_entries"
    unfolding K_def by (cases "collect_values console up ms ex [] a1") auto
  show ?thesis using c2 c3 unfolding ms_def ex_def by blast
qed

text \<open>
  C4. In a run of \<open>sync\<close> that completes with changes made, the text of the actual file
  is its old text followed by what \<open>_append_to_env\<close> writes for a dictionary
  \<open>new_entries\<close>, and every value in \<open>new_entries\<close> is valid for the hint extracted from
  the template comment of its key.
\<close>

theorem sync_appends_valid_values:
  assumes "sync console up files answers example_path env_path backup_path =
             Inr (True, files', answers')"
  shows "\<exists>new_entries.
           files' env_path =
             Some ((case files env_path of None \<Rightarrow> [] | Some t \<Rightarrow> t) @
                   appended_text (case files env_path of None \<Rightarrow> [] | Some t \<Rightarrow> t) new_entries) \<and>
           (\<forall>kv \<in> set new_entries. hint_ok up (parse_file files example_path) kv)"
proof -
  from sync_True_parts [OF assms] obtain files1 new_entries a1 where
    b: "create_backup console files env_path backup_path = Inr files1" and
    c: "collect_values console up
          (find_missing_keys (parse_file files example_path) (parse_file files env_path))
          (parse_file files example_path) [] a1 = Inr (new_entries, answers')" and
    f: "files' = append_to_env files1 env_path new_entries"
    by blast
  have same: "files1 env_path = files env_path"
    using b by (rule create_backup_env)
  have "\<forall>kv \<in> set new_entries. hint_ok up (parse_file files example_path) kv"
    using collect_values_valid [OF c] by simp
  moreover have "files' env_path =
             Some ((case files env_path of None \<Rightarrow> [] | Some t \<Rightarrow> t) @
                   appended_text (case files env_path of None \<Rightarrow> [] | Some t \<Rightarrow> t) new_entries)"
    using f same by (simp add: append_to_env_def Let_def)
  ultimately show ?thesis by blast
qed

lemma example_collect:
  "collect_values plain_console no_urlparse [''PORT'']
     (parse_file example_files ''.env.example'') []
     [''abc'', ''8080''] = Inr ([(''PORT'', ''8080'')], [])"
  by code_simp

lemma example_backup:
  "create_backup plain_console example_files ''.env'' None =
     Inr (example_files(''.env.bak'' \<mapsto> ''HOST=example.org\<newline>''))"
  by (simp add: create_backup_def example_files_def plain_console_def)

lemma example_run:
  "sync plain_console no_urlparse example_files [''Y'', ''abc'', ''8080'']
     ''.env.example'' ''.env'' None =
     Inr (True,
          append_to_env (example_files(''.env.bak'' \<mapsto> ''HOST=example.org\<newline>'')) ''.env''
            [(''PORT'', ''8080'')],
          [])"
proof -
  have c: "confirm_sync [''Y'', ''abc'', ''8080''] = Inr (True, [''abc'', ''8080''])"
    by code_simp
  have e: "example_files ''.env.example'' \<noteq> None" by (simp add: example_files_def)
  have d: "display_missing_keys plain_console [''PORT'']
             (parse_file example_files ''.env.example'') = Inr ()"
    using example_display by (simp only: example_missing)
  show ?thesis
    using e by (simp add: sync_def Let_def example_missing d c example_backup example_collect
                  del: collect_values.simps table_rows.simps)
qed

theorem sync_appends_valid_values_witness:
  "\<exists>files'. sync plain_console no_urlparse example_files [''Y'', ''abc'', ''8080'']
               ''.env.example'' ''.env'' None =
      Inr (True, files', []) \<and>
    files' ''.env'' =
      Some ''HOST=example.org\<newline>\<newline># Added by Henvdall\<newline>PORT=8080\<newline>'' \<and>
    (\<exists>new_entries. files' ''.env'' =
         Some ((case example_files ''.env'' of None \<Rightarrow> [] | Some t \<Rightarrow> t) @
               appended_text (case example_files ''.env'' of None \<Rightarrow> [] | Some t \<Rightarrow> t)
                 new_entries) \<and>
       (\<forall>kv \<in> set new_entries.
          hint_ok no_urlparse (parse_file example_files ''.env.example'') kv))"
proof -
  have t: "append_to_env (example_files(''.env.bak'' \<mapsto> ''HOST=example.org\<newline>'')) ''.env''
             [(''PORT'', ''8080'')] ''.env''
      = Some ''HOST=example.org\<newline>\<newline># Added by Henvdall\<newline>PORT=8080\<newline>''"
    by (simp add: append_to_env_def example_files_def appended_text_def format_entry_def Let_def)
  from sync_appends_valid_values [OF example_run] t example_run show ?thesis by blast
qed

lemma markup_files_run:
  "sync strict_console no_urlparse (Map.empty(''.env.example'' \<mapsto> ''KEY=[/x]''))
     [''n''] ''.env.example'' ''.env'' None = Inl MarkupError"
proof -
  define files :: fs where "files = Map.empty(''.env.example'' \<mapsto> ''KEY=[/x]'')"
  have e: "files ''.env.example'' \<noteq> None" by (simp add: files_def)
  have m: "find_missing_keys (parse_file files ''.env.example'') (parse_file files ''.env'')
             = [''KEY'']"
    unfolding files_def by code_simp
  have d: "display_missing_keys strict_console [''KEY''] (parse_file files ''.env.example'')
             = Inl MarkupError"
    unfolding files_def by code_simp
  have n: "find_missing_keys (parse_file files ''.env.example'') (parse_file files ''.env'')
             \<noteq> []"
    by (simp only: m) simp
  have d': "display_missing_keys strict_console
              (find_missing_keys (parse_file files ''.env.example'') (parse_file files ''.env''))
              (parse_file files ''.env.example'') = Inl MarkupError"
    by (simp only: m d)
  have "sync strict_console no_urlparse files [''n''] ''.env.example'' ''.env'' None =
          Inl MarkupError"
    using e n d' by (rule sync_table_not_shown)
  then show ?thesis by (simp only: files_def)
qed

section \<open>The matcher\<close>

lemma set_rmatch_seq_Cons:
  "set (rmatch_seq (r # rs) s) = (\<Union>s' \<in> set (rmatch r s). set (rmatch_seq rs s'))"
  by simp

lemma caps_advance [simp]: "caps (advance n s) = caps s"
  by (simp add: advance_def)

lemma caps_preserved:
  "m \<in> set (rmatch r s) \<Longrightarrow> n \<notin> groups_of r \<Longrightarrow> caps m n = caps s n"
  "m \<in> set (rmatch_seq rs s) \<Longrightarrow> n \<notin> groups_of_list rs \<Longrightarrow> caps m n = caps s n"
proof (induction r and rs arbitrary: s m and s m rule: groups_of_groups_of_list.induct)
  case (13 r rs)
  from 13(3) obtain s' where s': "s' \<in> set (rmatch r s)" "m \<in> set (rmatch_seq rs s')"
    by auto
  show ?case using s' 13 by auto
qed (auto split: if_splits list.splits)

lemma reaches_refl: "reaches s s"
  unfolding reaches_def by (rule exI [of _ 0]) simp

lemma reaches_advance: "n \<le> length (rest s) \<Longrightarrow> reaches s (advance n s)"
  unfolding reaches_def by (rule exI [of _ n]) (simp add: advance_def)

lemma reaches_trans: "reaches s s' \<Longrightarrow> reaches s' m \<Longrightarrow> reaches s m"
proof -
  assume "reaches s s'" "reaches s' m"
  then obtain n1 n2 where
    n1: "n1 \<le> length (rest s)" "pos s' = pos s + n1" "rest s' = drop n1 (rest s)" and
    n2: "n2 \<le> length (rest s')" "pos m = pos s' + n2" "rest m = drop n2 (rest s')"
    unfolding reaches_def by blast
  have "n1 + n2 \<le> length (rest s) \<and> pos m = pos s + (n1 + n2) \<and> rest m = drop (n1 + n2) (rest s)"
    using n1 n2 by (simp add: add.commute)
  then show ?thesis unfolding reaches_def by blast
qed

lemma reaches_caps: "reaches s m \<Longrightarrow> reaches s (m\<lparr>caps := c\<rparr>)"
  by (simp add: reaches_def)

lemma run_len_le: "run_len p cs \<le> length cs"
  by (simp add: run_len_def length_takeWhile_le)

lemma take_eq_length:
  assumes "take (length w) cs = w"
  shows "length w \<le> length cs"
proof -
  have "length (take (length w) cs) = length w" by (simp only: assms)
  then show ?thesis by simp
qed

lemma lower_take_eq_length:
  assumes "lower (take (length w) cs) = w"
  shows "length w \<le> length cs"
proof -
  have "length (lower (take (length w) cs)) = length w" by (simp only: assms)
  then show ?thesis by (simp add: lower_def)
qed

lemma rmatch_reaches:
  "m \<in> set (rmatch r s) \<Longrightarrow> reaches s m"
  "m \<in> set (rmatch_seq rs s) \<Longrightarrow> reaches s m"
proof (induction r and rs arbitrary: s m and s m rule: groups_of_groups_of_list.induct)
  case (13 r rs)
  from 13(3) obtain s' where s': "s' \<in> set (rmatch r s)" "m \<in> set (rmatch_seq rs s')"
    by auto
  show ?case using 13(1) [OF s'(1)] 13(2) [OF s'(2)] by (rule reaches_trans)
next
  case (4 w)
  then show ?case by (auto split: if_splits intro!: reaches_advance take_eq_length)
next
  case (5 w)
  then show ?case by (auto split: if_splits intro!: reaches_advance lower_take_eq_length)
next
  case (6 p)
  then show ?case by (cases "rest s") (auto split: if_splits intro!: reaches_advance)
next
  case (7 p)
  then show ?case using run_len_le [of p "rest s"] by (auto intro!: reaches_advance)
next
  case (8 p)
  then show ?case using run_len_le [of p "rest s"] by (auto intro!: reaches_advance)
next
  case (9 p)
  then show ?case using run_len_le [of p "rest s"] by (auto intro!: reaches_advance)
next
  case (1 r)
  then show ?case by (auto intro: reaches_refl)
next
  case (2 n r)
  then show ?case by (auto intro: reaches_caps)
qed (auto split: if_splits intro: reaches_refl)

lemma rmatch_seq_ConsE:
  assumes "m \<in> set (rmatch_seq (r # rs) s)"
  obtains s' where "s' \<in> set (rmatch r s)" "m \<in> set (rmatch_seq rs s')"
  using assms by auto

lemma take_run_all:
  assumes "j \<le> run_len p xs"
  shows "\<forall>c \<in> set (take j xs). p c"
proof -
  have "take j xs = take j (takeWhile p xs @ dropWhile p xs)" by simp
  also have "\<dots> = take j (takeWhile p xs)"
    using assms unfolding run_len_def by (simp only: take_append) simp
  finally have "set (take j xs) \<subseteq> set (takeWhile p xs)"
    by (simp add: set_take_subset)
  then show ?thesis by (auto dest: set_takeWhileD)
qed

lemma in_rmatch_StarLazy:
  "m \<in> set (rmatch (StarLazy p) s) \<longleftrightarrow> (\<exists>j \<le> run_len p (rest s). m = advance j s)"
proof -
  have "set (rmatch (StarLazy p) s) = (\<lambda>n. advance n s) ` {n. n \<le> run_len p (rest s)}"
    by (auto simp del: upt_Suc simp: less_Suc_eq_le)
  then show ?thesis by blast
qed

lemma in_rmatch_Star:
  "m \<in> set (rmatch (Star p) s) \<longleftrightarrow> (\<exists>j \<le> run_len p (rest s). m = advance j s)"
proof -
  have "set (rmatch (Star p) s) = (\<lambda>n. advance n s) ` {n. n \<le> run_len p (rest s)}"
    by (auto simp del: upt_Suc simp: less_Suc_eq_le)
  then show ?thesis by blast
qed

lemma in_rmatch_Grp:
  "m \<in> set (rmatch (Grp n r) s) \<longleftrightarrow>
     (\<exists>m0 \<in> set (rmatch r s). m = m0\<lparr>caps := (caps m0)(n \<mapsto> take (pos m0 - pos s) (rest s))\<rparr>)"
  by auto

lemma env_line_groups:
  assumes "m \<in> set (rmatch ENV_LINE_PATTERN s)"
  shows "\<exists>k g. caps m 1 = Some k \<and> caps m 2 = Some g \<and> CHR ''#'' \<notin> set g"
proof -
  define tail3 where "tail3 = [Star is_space, Lit ''='', Star is_space, Grp 2 (StarLazy not_hash),
     Opt (Seq [Star is_space, Lit ''#'', Star is_space, Grp 3 (Star not_newline)]), Eos]"
  define tail7 where "tail7 =
     [Opt (Seq [Star is_space, Lit ''#'', Star is_space, Grp 3 (Star not_newline)]), Eos]"
  have m: "m \<in> set (rmatch_seq (Bos # Star is_space #
       Grp 1 (Seq [Cls is_ident_start, Star is_ident_char]) # tail3) s)"
    using assms by (simp only: ENV_LINE_PATTERN_def rmatch.simps tail3_def)
  from m obtain s1 where s1: "m \<in> set (rmatch_seq (Star is_space #
       Grp 1 (Seq [Cls is_ident_start, Star is_ident_char]) # tail3) s1)"
    by (rule rmatch_seq_ConsE)
  from s1 obtain s2 where s2: "m \<in> set (rmatch_seq (
       Grp 1 (Seq [Cls is_ident_start, Star is_ident_char]) # tail3) s2)"
    by (rule rmatch_seq_ConsE)
  from s2 obtain s3 where s3: "s3 \<in> set (rmatch (Grp 1 (Seq [Cls is_ident_start, Star is_ident_char])) s2)"
     "m \<in> set (rmatch_seq tail3 s3)"
    by (rule rmatch_seq_ConsE)
  from s3(1) obtain k where k: "caps s3 1 = Some k" by auto
  have "1 \<notin> groups_of_list tail3" by (simp add: tail3_def)
  from caps_preserved(2) [OF s3(2) this] k have g1: "caps m 1 = Some k" by simp
  from s3(2) obtain s4 where s4: "m \<in> set (rmatch_seq (Lit ''='' # Star is_space # Grp 2 (StarLazy not_hash) # tail7) s4)"
    unfolding tail3_def tail7_def by (rule rmatch_seq_ConsE)
  from s4 obtain s5 where s5: "m \<in> set (rmatch_seq (Star is_space # Grp 2 (StarLazy not_hash) # tail7) s5)"
    by (rule rmatch_seq_ConsE)
  from s5 obtain s6 where s6: "m \<in> set (rmatch_seq (Grp 2 (StarLazy not_hash) # tail7) s6)"
    by (rule rmatch_seq_ConsE)
  from s6 obtain s7 where s7: "s7 \<in> set (rmatch (Grp 2 (StarLazy not_hash)) s6)"
     "m \<in> set (rmatch_seq tail7 s7)"
    by (rule rmatch_seq_ConsE)
  from s7(1) obtain m0 where m0: "m0 \<in> set (rmatch (StarLazy not_hash) s6)"
      "s7 = m0\<lparr>caps := (caps m0)(2 \<mapsto> take (pos m0 - pos s6) (rest s6))\<rparr>"
    unfolding in_rmatch_Grp by blast
  from m0(1) obtain j where j0: "j \<le> run_len not_hash (rest s6)" "m0 = advance j s6"
    unfolding in_rmatch_StarLazy by blast
  have j: "j \<le> run_len not_hash (rest s6)" "caps s7 2 = Some (take j (rest s6))"
    using j0 m0(2) by (simp_all add: advance_def)
  have "2 \<notin> groups_of_list tail7" by (simp add: tail7_def)
  from caps_preserved(2) [OF s7(2) this] j have g2: "caps m 2 = Some (take j (rest s6))" by simp
  have "CHR ''#'' \<notin> set (take j (rest s6))"
    using take_run_all [OF j(1)] by (auto simp: not_hash_def)
  with g1 g2 show ?thesis by blast
qed

lemma set_strip: "set (strip s) \<subseteq> set s"
proof -
  have "set (dropWhile is_space (rev (dropWhile is_space s))) \<subseteq>
        set (rev (dropWhile is_space s))"
    by (auto dest: set_dropWhileD)
  also have "\<dots> = set (dropWhile is_space s)" by simp
  also have "\<dots> \<subseteq> set s" by (auto dest: set_dropWhileD)
  finally show ?thesis by (simp add: strip_def)
qed

lemma set_unquote_value: "set (unquote_value v) \<subseteq> set v"
proof -
  have "set (butlast (tl v)) \<subseteq> set v"
    by (cases v) (auto dest: in_set_butlastD)
  then show ?thesis by (simp add: unquote_value_def)
qed

lemma parse_line_no_hash:
  assumes "no_hash_values entries"
  shows "no_hash_values (parse_line entries line)"
proof (cases "re_match ENV_LINE_PATTERN (rstrip_nl line)")
  case None
  then show ?thesis using assms by (simp add: parse_line_def Let_def)
next
  case (Some m)
  then have "m \<in> set (rmatch ENV_LINE_PATTERN (start_at 0 (rstrip_nl line)))"
    by (auto simp: re_match_def first_match_def split: list.splits)
  from env_line_groups [OF this] obtain k g where
    kg: "caps m 1 = Some k" "caps m 2 = Some g" "CHR ''#'' \<notin> set g"
    by blast
  have v: "CHR ''#'' \<notin> set (unquote_value (strip g))"
    using kg(3) set_strip [of g] set_unquote_value [of "strip g"] by blast
  show ?thesis
    unfolding no_hash_values_def
  proof (clarify)
    fix a e assume in_set: "(a, e) \<in> set (parse_line entries line)" and h: "CHR ''#'' \<in> set (entry_value e)"
    define c0 where "c0 = (case group m 3 of None \<Rightarrow> None
        | Some g3 \<Rightarrow> if g3 = [] then None else Some (strip g3))"
    have "parse_line entries line = entries \<or> parse_line entries line =
       AList.update k \<lparr>entry_key = k, entry_value = unquote_value (strip g), entry_comment = c0\<rparr> entries"
      using Some kg by (simp add: parse_line_def Let_def group_def c0_def)
    then have "parse_line entries line = entries \<or> (\<exists>c. parse_line entries line =
       AList.update k \<lparr>entry_key = k, entry_value = unquote_value (strip g), entry_comment = c\<rparr> entries)"
      by blast
    then show False
    proof
      assume "parse_line entries line = entries"
      then show False using in_set h assms unfolding no_hash_values_def by auto
    next
      assume "\<exists>c. parse_line entries line =
       AList.update k \<lparr>entry_key = k, entry_value = unquote_value (strip g), entry_comment = c\<rparr> entries"
      then obtain c where "(a, e) \<in> set (AList.update k \<lparr>entry_key = k, entry_value = unquote_value (strip g), entry_comment = c\<rparr> entries)"
        using in_set by auto
      from set_update_cases [OF this] show False
        using v h assms unfolding no_hash_values_def by auto
    qed
  qed
qed

lemma foldl_parse_line_no_hash:
  "no_hash_values entries \<Longrightarrow> no_hash_values (foldl parse_line entries ls)"
  by (induction ls arbitrary: entries) (simp_all add: parse_line_no_hash)

text \<open>
  C10. No value in the dictionary that \<open>parse_file\<close> returns contains the character
  \<open>#\<close>: group 2 of the line pattern cannot hold one, and trimming and unquoting only
  remove characters. So a value with a \<open>#\<close>, which \<open>format_entry\<close> writes in quotes,
  does not come back.
\<close>

theorem parsed_values_have_no_hash:
  "(key, entry) \<in> set (parse_file files file_path) \<Longrightarrow> CHR ''#'' \<notin> set (entry_value entry)"
proof -
  assume a: "(key, entry) \<in> set (parse_file files file_path)"
  have e: "no_hash_values []" by (simp add: no_hash_values_def)
  have "no_hash_values (parse_file files file_path)"
    by (cases "files file_path") (simp_all add: parse_file_def foldl_parse_line_no_hash e)
  with a show ?thesis unfolding no_hash_values_def by auto
qed

theorem parsed_values_have_no_hash_witness:
  "format_entry ''KEY'' ''a#b'' = ''KEY='' @ [CHR 0x22] @ ''a#b'' @ [CHR 0x22] \<and>
   parse_file (\<lambda>p. Some (format_entry ''KEY'' ''a#b'')) ''.env'' =
     [(''KEY'', \<lparr>entry_key = ''KEY'', entry_value = [CHR 0x22, CHR ''a''],
                 entry_comment = Some [CHR ''b'', CHR 0x22]\<rparr>)] \<and>
   CHR ''#'' \<notin> set [CHR 0x22, CHR ''a'']"
proof -
  have f: "format_entry ''KEY'' ''a#b'' = ''KEY='' @ [CHR 0x22] @ ''a#b'' @ [CHR 0x22]"
    by code_simp
  have p: "parse_file (\<lambda>p. Some (format_entry ''KEY'' ''a#b'')) ''.env'' =
     [(''KEY'', \<lparr>entry_key = ''KEY'', entry_value = [CHR 0x22, CHR ''a''],
                 entry_comment = Some [CHR ''b'', CHR 0x22]\<rparr>)]"
    by code_simp
  have "(''KEY'', \<lparr>entry_key = ''KEY'', entry_value = [CHR 0x22, CHR ''a''],
                 entry_comment = Some [CHR ''b'', CHR 0x22]\<rparr>)
        \<in> set (parse_file (\<lambda>p. Some (format_entry ''KEY'' ''a#b'')) ''.env'')"
    by (simp only: p) simp
  from parsed_values_have_no_hash [OF this] f p show ?thesis by simp
qed

section \<open>The validation hint\<close>

lemma not_word_rparen: "\<not> is_word (CHR '')'')"
  by (simp add: is_word_def is_ident_char_def is_ident_start_def is_digit_def code_def)

lemma run_len_nth:
  assumes "n < run_len p cs"
  shows "p (cs ! n)"
proof -
  have n: "n < length (takeWhile p cs)" using assms by (simp add: run_len_def)
  then have "takeWhile p cs ! n \<in> set (takeWhile p cs)" by (rule nth_mem)
  then have "p (takeWhile p cs ! n)" by (auto dest: set_takeWhileD)
  then show ?thesis using n by (simp add: takeWhile_nth)
qed

lemma lit_rparen_fails:
  assumes "n < run_len is_word (rest s)"
  shows "rmatch (Lit '')'') (advance n s\<lparr>caps := c\<rparr>) = []"
proof -
  have "n < length (rest s)" using assms run_len_le [of is_word "rest s"] by simp
  then have "take 1 (drop n (rest s)) = [rest s ! n]"
    by (simp add: Cons_nth_drop_Suc [symmetric])
  moreover have "rest s ! n \<noteq> CHR '')''" using run_len_nth [OF assms] not_word_rparen by auto
  ultimately show ?thesis by (simp add: advance_def)
qed

lemma concat_rmatch_seq_Nil: "concat (map (rmatch_seq []) xs) = xs"
  by (induction xs) simp_all

lemma rmatch_seq_single: "rmatch_seq [r] s = rmatch r s"
  by (simp add: concat_rmatch_seq_Nil)

lemma upt_rev_Suc: "1 \<le> k \<Longrightarrow> rev [1..<Suc k] = k # rev [1..<k]"
  by simp

lemma plus_then_rparen:
  "rmatch_seq [Grp 1 (Plus is_word), Lit '')''] s =
     (let k = run_len is_word (rest s) in
      if k \<ge> 1 \<and> take 1 (drop k (rest s)) = '')''
      then [advance 1 ((advance k s)\<lparr>caps := (caps s)(1 \<mapsto> take k (rest s))\<rparr>)]
      else [])"
proof -
  define k where "k = run_len is_word (rest s)"
  define F where "F = (\<lambda>n. rmatch (Lit '')'')
     ((advance n s)\<lparr>caps := (caps s)(1 \<mapsto> take n (rest s))\<rparr>))"
  have unfold: "rmatch_seq [Grp 1 (Plus is_word), Lit '')''] s = concat (map F (rev [1..<Suc k]))"
    unfolding F_def k_def
    by (simp add: concat_rmatch_seq_Nil comp_def advance_def del: upt_Suc rmatch.simps(1))
  have small: "\<forall>n \<in> set (rev [1..<k]). F n = []"
    unfolding F_def k_def using lit_rparen_fails by simp
  show ?thesis
  proof (cases "k \<ge> 1")
    case False
    then have "rev [1..<Suc k] = []" by simp
    with False show ?thesis unfolding unfold k_def [symmetric] by (simp add: Let_def)
  next
    case True
    then have "rev [1..<Suc k] = k # rev [1..<k]" by simp
    then have "concat (map F (rev [1..<Suc k])) = F k"
      using small by simp
    then show ?thesis unfolding unfold k_def [symmetric] using True
      by (simp add: Let_def F_def advance_def)
  qed
qed

lemma hint_first_match:
  "first_match hint_pattern p cs =
     (case token_here cs of
        None \<Rightarrow> None
      | Some w \<Rightarrow> Some \<lparr>pos = p + length w + 2, rest = drop (length w + 2) cs, caps = [1 \<mapsto> w]\<rparr>)"
proof (cases cs)
  case Nil
  then show ?thesis by (simp add: first_match_def hint_pattern_def token_here_def start_at_def)
next
  case (Cons c t)
  show ?thesis
  proof (cases "c = CHR ''(''")
    case False
    then show ?thesis using Cons
      by (simp add: first_match_def hint_pattern_def token_here_def start_at_def Let_def)
  next
    case True
    have "rmatch hint_pattern (start_at p cs) =
        rmatch_seq [Grp 1 (Plus is_word), Lit '')''] (advance 1 (start_at p cs))"
      using True Cons by (simp add: hint_pattern_def start_at_def del: rmatch.simps(6,8))
    then show ?thesis using True Cons
      unfolding first_match_def plus_then_rparen 
      by (simp add: Let_def token_here_def advance_def start_at_def run_len_def min_def)
  qed
qed

lemma hint_search:
  "(case search_from hint_pattern p cs of Some m \<Rightarrow> group m 1 | None \<Rightarrow> None) = first_paren_word cs"
proof (induction cs arbitrary: p)
  case Nil
  then show ?case by (simp add: hint_first_match token_here_def)
next
  case (Cons c cs)
  show ?case
  proof (cases "token_here (c # cs)")
    case None
    then show ?thesis using Cons.IH [of "Suc p"] by (simp add: hint_first_match)
  next
    case (Some w)
    then show ?thesis by (simp add: hint_first_match group_def)
  qed
qed

lemma run_len_word_app:
  assumes "\<forall>x \<in> set w. is_word x"
  shows "run_len is_word (w @ CHR '')'' # post) = length w"
proof -
  have "takeWhile is_word (w @ CHR '')'' # post) = w"
    using assms not_word_rparen by (simp add: takeWhile_tail)
  then show ?thesis by (simp add: run_len_def)
qed

lemma token_here_iff:
  "token_here cs = Some w \<longleftrightarrow> token_at cs [] w"
proof
  assume a: "token_here cs = Some w"
  then obtain t where t: "cs = CHR ''('' # t"
    by (cases cs) (auto simp: token_here_def Let_def split: if_splits)
  define k where "k = run_len is_word t"
  from a t have k: "k \<ge> 1" "take 1 (drop k t) = '')''" "w = take k t"
    by (auto simp: token_here_def Let_def k_def split: if_splits)
  have "drop k t = CHR '')'' # drop (Suc k) t"
    using k(2) by (metis (no_types) append_take_drop_id drop_drop plus_1_eq_Suc append_Cons append_Nil)
  then have "t = w @ '')'' @ drop (Suc k) t"
    using k(3) by (metis append_take_drop_id append_Cons append_Nil)
  moreover have "\<forall>x \<in> set w. is_word x"
    unfolding k(3) k_def by (rule take_run_all) simp
  moreover have "w \<noteq> []"
    using k(1) k(3) run_len_le [of is_word t] by (auto simp: k_def)
  ultimately show "token_at cs [] w" unfolding token_at_def using t by auto
next
  assume "token_at cs [] w"
  then obtain post where p: "cs = CHR ''('' # w @ CHR '')'' # post" "w \<noteq> []" "\<forall>x \<in> set w. is_word x"
    unfolding token_at_def by auto
  have "Suc 0 \<le> length w" using p(2) by (cases w) simp_all
  then show "token_here cs = Some w"
    using p by (simp add: token_here_def run_len_word_app Let_def)
qed

lemma token_at_Cons: "token_at (c # cs) (c' # pre) w \<longleftrightarrow> c' = c \<and> token_at cs pre w"
  by (auto simp: token_at_def)

lemma first_paren_word_Some:
  "first_paren_word c = Some w \<Longrightarrow>
     \<exists>pre. token_at c pre w \<and> (\<forall>pre' w'. token_at c pre' w' \<longrightarrow> length pre \<le> length pre')"
proof (induction c)
  case Nil
  then show ?case by simp
next
  case (Cons a c)
  show ?case
  proof (cases "token_here (a # c)")
    case (Some w0)
    with Cons.prems have "w0 = w" by simp
    with Some have "token_at (a # c) [] w" by (simp add: token_here_iff)
    then show ?thesis by (intro exI [of _ "[]"]) simp
  next
    case None
    with Cons.prems have "first_paren_word c = Some w" by simp
    from Cons.IH [OF this] obtain pre where
      pre: "token_at c pre w" "\<forall>pre' w'. token_at c pre' w' \<longrightarrow> length pre \<le> length pre'"
      by blast
    have 1: "token_at (a # c) (a # pre) w" using pre(1) by (simp add: token_at_Cons)
    have 2: "length (a # pre) \<le> length pre'" if t: "token_at (a # c) pre' w'" for pre' w'
    proof (cases pre')
      case Nil
      with t have "token_here (a # c) = Some w'" by (simp add: token_here_iff)
      with None show ?thesis by simp
    next
      case (Cons b q)
      with t have "token_at c q w'" by (simp add: token_at_Cons)
      with pre(2) have "length pre \<le> length q" by blast
      with Cons show ?thesis by simp
    qed
    from 1 2 show ?thesis by blast
  qed
qed

lemma first_paren_word_None:
  "first_paren_word c = None \<Longrightarrow> \<not> token_at c pre w"
proof (induction c arbitrary: pre)
  case Nil
  then show ?case by (simp add: token_at_def)
next
  case (Cons a c)
  from Cons.prems have n: "token_here (a # c) = None" "first_paren_word c = None"
    by (auto split: option.splits)
  show ?case
  proof (cases pre)
    case Nil
    show ?thesis using n(1) unfolding Nil token_here_iff [symmetric] by simp
  next
    case (Cons b q)
    show ?thesis using Cons.IH [OF n(2), of q] unfolding Cons by (simp add: token_at_Cons)
  qed
qed

lemma token_at_unique:
  assumes "token_at c pre w" "token_at c pre w'"
  shows "w = w'"
proof -
  have d: "token_at (drop (length pre) c) [] v" if "token_at c pre v" for v
    using that by (auto simp: token_at_def)
  from d [OF assms(1)] d [OF assms(2)] have "token_here (drop (length pre) c) = Some w" "token_here (drop (length pre) c) = Some w'"
    by (simp_all add: token_here_iff)
  then show ?thesis by simp
qed

lemma first_paren_word_iff: "first_paren_word c = Some w \<longleftrightarrow> first_token c w"
proof
  assume "first_paren_word c = Some w"
  then show "first_token c w" unfolding first_token_def by (rule first_paren_word_Some)
next
  assume "first_token c w"
  then obtain pre where
    pre: "token_at c pre w" "\<forall>pre' w'. token_at c pre' w' \<longrightarrow> length pre \<le> length pre'"
    unfolding first_token_def by blast
  show "first_paren_word c = Some w"
  proof (cases "first_paren_word c")
    case None
    from first_paren_word_None [OF this] pre(1) show ?thesis by blast
  next
    case (Some v)
    from first_paren_word_Some [OF this] obtain q where
      q: "token_at c q v" "\<forall>pre' w'. token_at c pre' w' \<longrightarrow> length q \<le> length pre'"
      by blast
    have len: "length q = length pre" using pre q by (meson le_antisym)
    have tk: "take (length x) c = x" if "token_at c x y" for x y
      using that by (auto simp: token_at_def)
    from tk [OF pre(1)] tk [OF q(1)] len have "q = pre" by simp
    with q(1) pre(1) have "v = w" by (auto dest: token_at_unique)
    with Some show ?thesis by simp
  qed
qed

lemma extract_is_first_paren_word:
  "extract_validation_type comment = (case comment of None \<Rightarrow> None | Some c \<Rightarrow> first_paren_word c)"
proof (cases comment)
  case None
  then show ?thesis by (simp add: extract_validation_type_def)
next
  case (Some c)
  have "(case re_search hint_pattern c of Some m \<Rightarrow> group m 1 | None \<Rightarrow> None) = first_paren_word c"
    unfolding re_search_def by (rule hint_search)
  then show ?thesis using Some
    by (cases c) (simp_all add: extract_validation_type_def hint_pattern_def)
qed

text \<open>
  C3, as the specification words it, fails: the contents of the token are returned as
  they are written, not in lower case (\<open>validate_value\<close> lowers the hint when it reads
  it).
\<close>

theorem extract_validation_type_not_lowercase:
  "extract_validation_type (Some ''(INT)'') = Some ''INT'' \<and>
   spec_extractValidationHint (Some ''(INT)'') = Some ''int''"
  by code_simp

text \<open>
  C3, amended. \<open>extract_validation_type\<close> returns the contents, as written, of the
  first token \<open>(word)\<close> of the comment, word being one or more word characters, and
  nothing when the comment is absent or holds no such token.
\<close>

theorem extract_validation_type_first_token:
  "extract_validation_type None = None \<and>
   (extract_validation_type (Some c) = Some w \<longleftrightarrow> first_token c w) \<and>
   (extract_validation_type (Some c) = None \<longleftrightarrow> \<not> (\<exists>pre w. token_at c pre w))"
proof -
  have "first_paren_word c = None \<longleftrightarrow> \<not> (\<exists>pre w. token_at c pre w)"
  proof
    assume "first_paren_word c = None"
    then show "\<not> (\<exists>pre w. token_at c pre w)" using first_paren_word_None by blast
  next
    assume n: "\<not> (\<exists>pre w. token_at c pre w)"
    show "first_paren_word c = None"
    proof (cases "first_paren_word c")
      case (Some v)
      from first_paren_word_Some [OF this] n show ?thesis by blast
    qed simp
  qed
  then show ?thesis by (simp add: extract_is_first_paren_word first_paren_word_iff)
qed

theorem extract_validation_type_first_token_witness:
  "extract_validation_type (Some ''x ((INT)) (url)'') = Some ''INT'' \<and>
   first_token ''x ((INT)) (url)'' ''INT'' \<and>
   extract_validation_type (Some ''no validation'') = None \<and>
   \<not> (\<exists>pre w. token_at ''no validation'' pre w)"
proof -
  have a: "extract_validation_type (Some ''x ((INT)) (url)'') = Some ''INT''" by code_simp
  have b: "extract_validation_type (Some ''no validation'') = None" by code_simp
  show ?thesis
    using a b extract_validation_type_first_token [of "''x ((INT)) (url)''" "''INT''"]
      extract_validation_type_first_token [of "''no validation''" "''INT''"]
    by blast
qed

section \<open>Integers\<close>

lemma not_digit_underscore: "\<not> is_digit (CHR ''_'')"
  by (simp add: is_digit_def code_def)

lemma dou_underscore: "digit_or_underscore (CHR ''_'')"
  by (simp add: digit_or_underscore_def)

lemma dou_digit: "is_digit c \<Longrightarrow> digit_or_underscore c"
  by (simp add: digit_or_underscore_def)

lemma dou_other: "\<not> is_digit c \<Longrightarrow> c \<noteq> CHR ''_'' \<Longrightarrow> \<not> digit_or_underscore c"
  by (simp add: digit_or_underscore_def)

lemma scan_digits_result:
  "\<exists>acc'. scan_digits cs prev d acc =
     (let body = takeWhile digit_or_underscore cs in
      if adjacent_underscores ((if prev then ''_'' else []) @ body) then None
      else Some (if body = [] then prev else last body = CHR ''_'',
                 d + count_digits body, acc', dropWhile digit_or_underscore cs))"
proof (induction cs arbitrary: prev d acc)
  case Nil
  then show ?case by (simp add: count_digits_def)
next
  case (Cons c cs)
  show ?case
  proof (cases "c = CHR ''_''")
    case True
    show ?thesis
    proof (cases prev)
      case True
      with \<open>c = CHR ''_''\<close> show ?thesis by (simp add: dou_underscore Let_def)
    next
      case False
      from Cons.IH [of True d acc] obtain acc' where
        "scan_digits cs True d acc =
     (let body = takeWhile digit_or_underscore cs in
      if adjacent_underscores ((if True then ''_'' else []) @ body) then None
      else Some (if body = [] then True else last body = CHR ''_'',
                 d + count_digits body, acc', dropWhile digit_or_underscore cs))" by blast
      with False \<open>c = CHR ''_''\<close> show ?thesis
        by (auto simp: dou_underscore Let_def count_digits_def not_digit_underscore)
    qed
  next
    case False
    show ?thesis
    proof (cases "is_digit c")
      case True
      from Cons.IH [of False "Suc d" "acc * 10 + int (code c - 48)"] obtain acc' where
        "scan_digits cs False (Suc d) (acc * 10 + int (code c - 48)) =
     (let body = takeWhile digit_or_underscore cs in
      if adjacent_underscores ((if False then ''_'' else []) @ body) then None
      else Some (if body = [] then False else last body = CHR ''_'',
                 Suc d + count_digits body, acc', dropWhile digit_or_underscore cs))" by blast
      with True False show ?thesis
        by (cases "takeWhile digit_or_underscore cs")
           (auto simp: dou_digit Let_def count_digits_def)
    next
      case nd: False
      with False show ?thesis
        by (simp add: dou_other Let_def count_digits_def)
    qed
  qed
qed

lemma scan_digits_start:
  "\<exists>acc'. scan_digits cs False 0 0 =
     (if adjacent_underscores (takeWhile digit_or_underscore cs) then None
      else Some (if takeWhile digit_or_underscore cs = [] then False
                 else last (takeWhile digit_or_underscore cs) = CHR ''_'',
                 count_digits (takeWhile digit_or_underscore cs), acc',
                 dropWhile digit_or_underscore cs))"
proof -
  from scan_digits_result [of cs False 0 0] obtain acc' where
    "scan_digits cs False 0 0 =
     (let body = takeWhile digit_or_underscore cs in
      if adjacent_underscores ((if False then ''_'' else []) @ body) then None
      else Some (if body = [] then False else last body = CHR ''_'',
                 0 + count_digits body, acc', dropWhile digit_or_underscore cs))" ..
  then have "scan_digits cs False 0 0 =
     (if adjacent_underscores (takeWhile digit_or_underscore cs) then None
      else Some (if takeWhile digit_or_underscore cs = [] then False
                 else last (takeWhile digit_or_underscore cs) = CHR ''_'',
                 count_digits (takeWhile digit_or_underscore cs), acc',
                 dropWhile digit_or_underscore cs))"
    by (simp add: Let_def)
  then show ?thesis ..
qed

lemma dropWhile_id_iff: "dropWhile p xs = xs \<longleftrightarrow> takeWhile p xs = []"
proof
  assume "dropWhile p xs = xs"
  then have "takeWhile p xs @ xs = xs" using takeWhile_dropWhile_id [of p xs] by simp
  then show "takeWhile p xs = []" by simp
next
  assume "takeWhile p xs = []"
  then show "dropWhile p xs = xs" using takeWhile_dropWhile_id [of p xs] by simp
qed

lemma py_int_computed:
  "py_int v \<noteq> None \<longleftrightarrow>
     (let s2 = skip_sign (dropWhile int_space v);
          body = takeWhile digit_or_underscore s2;
          rest = dropWhile digit_or_underscore s2
      in body \<noteq> [] \<and> hd body \<noteq> CHR ''_'' \<and> last body \<noteq> CHR ''_'' \<and>
         \<not> adjacent_underscores body \<and> count_digits body \<le> int_max_str_digits \<and>
         (\<forall>c \<in> set rest. int_space c))"
proof -
  define s2 where "s2 = skip_sign (dropWhile int_space v)"
  define body where "body = takeWhile digit_or_underscore s2"
  define rest where "rest = dropWhile digit_or_underscore s2"
  have "\<exists>acc'. scan_digits s2 False 0 0 =
      (if adjacent_underscores body then None
       else Some (if body = [] then False else last body = CHR ''_'',
                 count_digits body, acc', rest))"
    unfolding body_def rest_def by (rule scan_digits_start)
  then obtain acc' where
    sc: "scan_digits s2 False 0 0 =
      (if adjacent_underscores body then None
       else Some (if body = [] then False else last body = CHR ''_'',
                 count_digits body, acc', rest))" ..
  have hd_eq: "s2 \<noteq> [] \<and> hd s2 = CHR ''_'' \<longleftrightarrow> body \<noteq> [] \<and> hd body = CHR ''_''"
    unfolding body_def by (cases s2) (auto simp: dou_underscore)
  have rest_eq: "rest = s2 \<longleftrightarrow> body = []"
    unfolding rest_def body_def by (rule dropWhile_id_iff)
  have ws: "dropWhile int_space rest = [] \<longleftrightarrow> (\<forall>c \<in> set rest. int_space c)"
    by (simp add: dropWhile_eq_Nil_conv)
  have "py_int v \<noteq> None \<longleftrightarrow>
     (body \<noteq> [] \<and> hd body \<noteq> CHR ''_'' \<and> last body \<noteq> CHR ''_'' \<and>
         \<not> adjacent_underscores body \<and> count_digits body \<le> int_max_str_digits \<and>
         (\<forall>c \<in> set rest. int_space c))"
    unfolding py_int_def Let_def s2_def [symmetric]
    using hd_eq rest_eq ws
    by (auto simp: sc int_max_str_digits_def)
  then show ?thesis by (simp add: Let_def s2_def body_def rest_def)
qed

lemma int_space_not_dou: "int_space c \<Longrightarrow> \<not> digit_or_underscore c"
  by (auto simp: int_space_def digit_or_underscore_def is_digit_def code_def Let_def)

lemma digit_not_int_space: "is_digit c \<Longrightarrow> \<not> int_space c"
  by (auto simp: int_space_def is_digit_def code_def Let_def)

lemma sign_not_int_space: "\<not> int_space (CHR ''+'')" "\<not> int_space (CHR ''-'')"
  by (simp_all add: int_space_def code_def)

lemma digit_not_sign: "is_digit c \<Longrightarrow> c \<noteq> CHR ''+'' \<and> c \<noteq> CHR ''-''"
  by (auto simp: is_digit_def code_def)

lemma skip_sign_decomp:
  "\<exists>sign. (sign = [] \<or> sign = ''+'' \<or> sign = ''-'') \<and> s = sign @ skip_sign s"
  by (cases s) (auto simp: skip_sign_def)

lemma takeWhile_dou_spaces: "\<forall>c \<in> set ws. int_space c \<Longrightarrow> takeWhile digit_or_underscore ws = []"
  by (cases ws) (auto dest: int_space_not_dou)

lemma computed_imp_int_literal:
  assumes "let s2 = skip_sign (dropWhile int_space v);
          body = takeWhile digit_or_underscore s2;
          rest = dropWhile digit_or_underscore s2
      in body \<noteq> [] \<and> hd body \<noteq> CHR ''_'' \<and> last body \<noteq> CHR ''_'' \<and>
         \<not> adjacent_underscores body \<and> count_digits body \<le> int_max_str_digits \<and>
         (\<forall>c \<in> set rest. int_space c)"
  shows "int_literal v"
proof -
  define s1 where "s1 = dropWhile int_space v"
  define s2 where "s2 = skip_sign s1"
  define body where "body = takeWhile digit_or_underscore s2"
  define rest where "rest = dropWhile digit_or_underscore s2"
  from assms have a: "body \<noteq> []" "hd body \<noteq> CHR ''_''" "last body \<noteq> CHR ''_''"
    "\<not> adjacent_underscores body" "count_digits body \<le> int_max_str_digits"
    "\<forall>c \<in> set rest. int_space c"
    by (simp_all add: Let_def s1_def s2_def body_def rest_def)
  have dou: "\<forall>c \<in> set body. digit_or_underscore c"
    unfolding body_def by (auto dest: set_takeWhileD)
  have "digit_or_underscore (hd body)" "digit_or_underscore (last body)"
    using dou a(1) by simp_all
  with a(2,3) have "is_digit (hd body)" "is_digit (last body)"
    by (simp_all add: digit_or_underscore_def)
  with a dou have dg: "digit_groups body" by (simp add: digit_groups_def)
  from skip_sign_decomp [of s1] obtain sign where
    sign: "sign = [] \<or> sign = ''+'' \<or> sign = ''-''" "s1 = sign @ s2"
    unfolding s2_def by blast
  have "v = takeWhile int_space v @ s1" by (simp add: s1_def)
  also have "s1 = sign @ body @ rest" using sign(2) by (simp add: body_def rest_def)
  finally have v: "v = takeWhile int_space v @ sign @ body @ rest" .
  have "\<forall>c \<in> set (takeWhile int_space v). int_space c" by (auto dest: set_takeWhileD)
  with v sign(1) dg a(5,6) show ?thesis unfolding int_literal_def by blast
qed

lemma int_literal_imp_computed:
  assumes "int_literal v"
  shows "let s2 = skip_sign (dropWhile int_space v);
          body = takeWhile digit_or_underscore s2;
          rest = dropWhile digit_or_underscore s2
      in body \<noteq> [] \<and> hd body \<noteq> CHR ''_'' \<and> last body \<noteq> CHR ''_'' \<and>
         \<not> adjacent_underscores body \<and> count_digits body \<le> int_max_str_digits \<and>
         (\<forall>c \<in> set rest. int_space c)"
proof -
  from assms obtain ws1 sign body ws2 where
    v: "v = ws1 @ sign @ body @ ws2" and
    w1: "\<forall>c \<in> set ws1. int_space c" and w2: "\<forall>c \<in> set ws2. int_space c" and
    sign: "sign = [] \<or> sign = ''+'' \<or> sign = ''-''" and
    dg: "digit_groups body" and cnt: "count_digits body \<le> int_max_str_digits"
    unfolding int_literal_def by blast
  from dg obtain d b where b: "body = d # b" "is_digit d"
    by (cases body) (auto simp: digit_groups_def)
  have s1: "dropWhile int_space v = sign @ body @ ws2"
    using sign w1 b sign_not_int_space digit_not_int_space [OF b(2)]
    by (auto simp: v dropWhile_append2)
  have s2: "skip_sign (sign @ body @ ws2) = body @ ws2"
    using sign b digit_not_sign [OF b(2)] by (auto simp: skip_sign_def)
  have dou: "\<forall>c \<in> set body. digit_or_underscore c" using dg by (simp add: digit_groups_def)
  have tw: "takeWhile digit_or_underscore (body @ ws2) = body"
    using dou takeWhile_dou_spaces [OF w2] by (simp add: takeWhile_append2)
  have dw: "dropWhile digit_or_underscore (body @ ws2) = ws2"
    using dou takeWhile_dou_spaces [OF w2] by (simp add: dropWhile_append2 dropWhile_id_iff)
  have "hd body \<noteq> CHR ''_''" "last body \<noteq> CHR ''_''"
    using dg not_digit_underscore by (auto simp: digit_groups_def)
  then show ?thesis
    using dg cnt w2 by (simp add: Let_def s1 s2 tw dw digit_groups_def)
qed

lemma validate_int_valid_iff: "is_valid (validate_int v) \<longleftrightarrow> int_literal v"
proof -
  have "is_valid (validate_int v) \<longleftrightarrow> py_int v \<noteq> None"
    by (simp add: validate_int_def split: option.splits)
  also have "\<dots> \<longleftrightarrow> int_literal v"
    unfolding py_int_computed using computed_imp_int_literal int_literal_imp_computed by blast
  finally show ?thesis .
qed

text \<open>
  C7, as the specification words it, fails: \<open>int\<close> also accepts underscores between
  digits, and white space around the number.
\<close>

theorem validate_int_accepts_underscores:
  "is_valid (validate_int ''1_000'') \<and> \<not> spec_base10_integer ''1_000'' \<and>
   is_valid (validate_int '' 42'') \<and> \<not> spec_base10_integer '' 42''"
  by code_simp

text \<open>
  C7, amended. \<open>validate_int\<close> is valid exactly on the texts that \<open>int\<close> reads: white
  space, an optional sign, one or more digits with single underscores allowed between
  digits, white space, and no more digits than the interpreter's conversion limit. When
  it is not valid, the message is the value in single quotes followed by
  " is not a valid integer".
\<close>

theorem validate_int_literal:
  "(is_valid (validate_int v) \<longleftrightarrow> int_literal v) \<and>
   (\<not> is_valid (validate_int v) \<longrightarrow>
      error_message (validate_int v) =
        Some ([CHR 0x27] @ v @ [CHR 0x27] @ '' is not a valid integer''))"
  using validate_int_valid_iff [of v]
  by (simp add: validate_int_def split: option.splits)

theorem validate_int_literal_witness:
  "is_valid (validate_int '' +1_000 '') \<and> int_literal '' +1_000 '' \<and>
   \<not> is_valid (validate_int ''4 2'') \<and> \<not> int_literal ''4 2'' \<and>
   error_message (validate_int ''4 2'') =
     Some ([CHR 0x27] @ ''4 2'' @ [CHR 0x27] @ '' is not a valid integer'')"
proof -
  have a: "is_valid (validate_int '' +1_000 '')" by code_simp
  have b: "\<not> is_valid (validate_int ''4 2'')" by code_simp
  show ?thesis
    using a b validate_int_literal [of "'' +1_000 ''"] validate_int_literal [of "''4 2''"]
    by blast
qed

section \<open>Writing an entry and reading it back\<close>

lemma advance_0: "advance 0 s = s"
  by (simp add: advance_def)

lemma rmatch_Star_stay: "run_len p (rest s) = 0 \<Longrightarrow> rmatch (Star p) s = [s]"
  by (simp add: advance_0)

lemma run_len_0: "cs = [] \<or> \<not> p (hd cs) \<Longrightarrow> run_len p cs = 0"
  by (cases cs) (auto simp: run_len_def)

lemma run_len_all: "\<forall>c \<in> set cs. p c \<Longrightarrow> run_len p cs = length cs"
  unfolding run_len_def by (induction cs) simp_all

lemma run_len_prefix:
  "\<forall>c \<in> set xs. p c \<Longrightarrow> \<not> p y \<Longrightarrow> run_len p (xs @ y # ys) = length xs"
  by (simp add: run_len_def takeWhile_tail)

lemma lit_hash_fails:
  assumes "CHR ''#'' \<notin> set (rest s)"
  shows "rmatch (Lit ''#'') (advance n s) = []"
proof -
  have "take 1 (drop n (rest s)) \<noteq> ''#''"
  proof
    assume "take 1 (drop n (rest s)) = ''#''"
    then have "CHR ''#'' \<in> set (take 1 (drop n (rest s)))" by simp
    then have "CHR ''#'' \<in> set (rest s)"
      by (meson in_set_dropD in_set_takeD)
    with assms show False by simp
  qed
  then show ?thesis by (simp add: advance_def)
qed

lemma comment_part_fails:
  assumes "CHR ''#'' \<notin> set (rest s)"
  shows "rmatch comment_part s = []"
proof -
  have "\<forall>s' \<in> set (rmatch (Star is_space) s).
          rmatch_seq [Lit ''#'', Star is_space, Grp 3 (Star not_newline)] s' = []"
  proof
    fix s' assume "s' \<in> set (rmatch (Star is_space) s)"
    then obtain j where "s' = advance j s" unfolding in_rmatch_Star by blast
    then have "rmatch (Lit ''#'') s' = []" using lit_hash_fails [OF assms] by simp
    then show "rmatch_seq [Lit ''#'', Star is_space, Grp 3 (Star not_newline)] s' = []"
      by (simp only: rmatch_seq.simps list.map concat.simps)
  qed
  then show ?thesis
    unfolding comment_part_def by (simp only: rmatch.simps(9) rmatch_seq.simps(2)) simp
qed

lemma tail_after_value:
  assumes "CHR ''#'' \<notin> set (rest s)"
  shows "rmatch_seq [Opt comment_part, Eos] s =
           (if rest s = [] \<or> rest s = [CHR 0x0A] then [s] else [])"
  using comment_part_fails [OF assms] by simp

lemma value_group_then_tail:
  assumes h: "CHR ''#'' \<notin> set (rest s)" and nl: "CHR 0x0A \<notin> set (rest s)"
  shows "rmatch_seq [Grp 2 (StarLazy not_hash), Opt comment_part, Eos] s =
           [(advance (length (rest s)) s)\<lparr>caps := (caps s)(2 \<mapsto> rest s)\<rparr>]"
proof -
  define L where "L = length (rest s)"
  define G where "G = (\<lambda>n. (advance n s)\<lparr>caps := (caps s)(2 \<mapsto> take n (rest s))\<rparr>)"
  define F where "F = rmatch_seq [Opt comment_part, Eos]"
  have rl: "run_len not_hash (rest s) = L"
    unfolding L_def using h by (intro run_len_all) (auto simp: not_hash_def)
  have g: "rmatch (Grp 2 (StarLazy not_hash)) s = map G [0..<Suc L]"
    unfolding G_def by (simp add: rl advance_def del: upt_Suc)
  have restG: "rest (G n) = drop n (rest s)" for n by (simp add: G_def advance_def)
  have small: "F (G n) = []" if "n < L" for n
  proof -
    have ne: "drop n (rest s) \<noteq> []" using that by (simp add: L_def)
    have "set (drop n (rest s)) \<subseteq> set (rest s)" by (rule set_drop_subset)
    with h nl have a: "CHR ''#'' \<notin> set (rest (G n))" "CHR 0x0A \<notin> set (rest (G n))"
      by (auto simp: restG)
    from a(2) have "rest (G n) \<noteq> [CHR 0x0A]" by auto
    with ne show ?thesis unfolding F_def tail_after_value [OF a(1)] by (simp add: restG)
  qed
  have last: "F (G L) = [G L]"
  proof -
    have r: "rest (G L) = []" by (simp add: restG L_def)
    then have "CHR ''#'' \<notin> set (rest (G L))" by simp
    from tail_after_value [OF this] r show ?thesis by (simp add: F_def)
  qed
  have e1: "rmatch_seq [Grp 2 (StarLazy not_hash), Opt comment_part, Eos] s =
          concat (map F (map G [0..<Suc L]))"
    unfolding F_def by (simp only: rmatch_seq.simps(2) g)
  have e2: "concat (map F (map G [0..<Suc L])) = concat (map (\<lambda>n. F (G n)) [0..<L]) @ F (G L)"
    by (simp add: comp_def)
  have e3: "concat (map (\<lambda>n. F (G n)) [0..<L]) = []"
    using small by simp
  have GL: "G L = (advance (length (rest s)) s)\<lparr>caps := (caps s)(2 \<mapsto> rest s)\<rparr>"
    by (simp add: G_def L_def)
  have "rmatch_seq [Grp 2 (StarLazy not_hash), Opt comment_part, Eos] s = [G L]"
    by (simp only: e1 e2 e3 last append_Nil)
  then show ?thesis by (simp only: GL)
qed

lemma eq_not_space: "\<not> is_space (CHR ''='')"
  by (simp add: is_space_def code_def)

lemma eq_not_ident: "\<not> is_ident_char (CHR ''='')"
  by (simp add: is_ident_char_def is_ident_start_def is_digit_def code_def)

lemma ident_start_not_space: "is_ident_start c \<Longrightarrow> \<not> is_space c"
  by (auto simp: is_ident_start_def is_space_def Let_def)

lemma rmatch_Lit_hit: "rest s = w @ t \<Longrightarrow> rmatch (Lit w) s = [advance (length w) s]"
  by simp

lemma after_key:
  assumes r: "rest s = CHR ''='' # value"
    and h: "CHR ''#'' \<notin> set value" and nl: "CHR 0x0A \<notin> set value"
    and lead: "value = [] \<or> \<not> is_space (hd value)"
  shows "rmatch_seq [Star is_space, Lit ''='', Star is_space,
                     Grp 2 (StarLazy not_hash), Opt comment_part, Eos] s =
           [(advance (Suc (length value)) s)\<lparr>caps := (caps s)(2 \<mapsto> value)\<rparr>]"
proof -
  define s1 where "s1 = advance 1 s"
  have r1: "rest s1 = value" by (simp add: s1_def advance_def r)
  have a: "rmatch (Star is_space) s = [s]"
    by (rule rmatch_Star_stay) (simp add: r run_len_def eq_not_space)
  have b: "rmatch (Lit ''='') s = [s1]"
    by (simp add: r s1_def)
  have c: "rmatch (Star is_space) s1 = [s1]"
    using lead by (intro rmatch_Star_stay run_len_0) (simp add: r1)
  have d: "rmatch_seq [Grp 2 (StarLazy not_hash), Opt comment_part, Eos] s1 =
           [(advance (length value) s1)\<lparr>caps := (caps s1)(2 \<mapsto> value)\<rparr>]"
    using value_group_then_tail [of s1] h nl by (simp only: r1) simp
  have "rmatch_seq [Star is_space, Lit ''='', Star is_space,
                     Grp 2 (StarLazy not_hash), Opt comment_part, Eos] s =
        rmatch_seq [Grp 2 (StarLazy not_hash), Opt comment_part, Eos] s1"
    by (simp only: rmatch_seq.simps(2) a b c list.map concat.simps append_Nil2)
  then show ?thesis
    by (simp only: d) (simp add: s1_def advance_def)
qed

lemma key_group:
  assumes st: "is_ident_start c" and ch: "\<forall>x \<in> set cs. is_ident_char x"
    and r: "rest s = c # cs @ CHR ''='' # value"
  shows "\<exists>xs. rmatch (Grp 1 (Seq [Cls is_ident_start, Star is_ident_char])) s =
           ((advance (Suc (length cs)) s)\<lparr>caps := (caps s)(1 \<mapsto> c # cs)\<rparr>) # xs"
proof -
  define s1 where "s1 = advance 1 s"
  have r1: "rest s1 = cs @ CHR ''='' # value" by (simp add: s1_def advance_def r)
  have k: "run_len is_ident_char (rest s1) = length cs"
    unfolding r1 using ch eq_not_ident by (rule run_len_prefix)
  have a: "rmatch (Cls is_ident_start) s = [s1]" by (simp add: r st s1_def)
  have b: "rmatch (Star is_ident_char) s1 =
             advance (length cs) s1 # map (\<lambda>n. advance n s1) (rev [0..<length cs])"
    by (simp add: k)
  have "rmatch (Seq [Cls is_ident_start, Star is_ident_char]) s = rmatch (Star is_ident_char) s1"
    by (simp only: rmatch.simps(9) rmatch_seq.simps(2) a list.map concat.simps append_Nil2
          concat_rmatch_seq_Nil)
  then have "rmatch (Grp 1 (Seq [Cls is_ident_start, Star is_ident_char])) s =
      map (\<lambda>s'. s'\<lparr>caps := (caps s')(1 \<mapsto> take (pos s' - pos s) (rest s))\<rparr>)
        (advance (length cs) s1 # map (\<lambda>n. advance n s1) (rev [0..<length cs]))"
    by (simp only: rmatch.simps(8) b)
  then show ?thesis by (simp add: s1_def advance_def r)
qed

lemma env_line_first_match:
  assumes id: "is_identifier key"
    and h: "CHR ''#'' \<notin> set value" and nl: "CHR 0x0A \<notin> set value"
    and lead: "value = [] \<or> \<not> is_space (hd value)"
  shows "\<exists>m. re_match ENV_LINE_PATTERN (key @ ''='' @ value) = Some m \<and>
           group m 1 = Some key \<and> group m 2 = Some value \<and> group m 3 = None"
proof -
  from id obtain c cs where key: "key = c # cs" and st: "is_ident_start c"
    and ch: "\<forall>x \<in> set cs. is_ident_char x"
    by (cases key) (auto simp: is_identifier_def)
  define s0 where "s0 = start_at 0 (key @ ''='' @ value)"
  have r0: "rest s0 = c # cs @ CHR ''='' # value" by (simp add: s0_def start_at_def key)
  define x where "x = (advance (Suc (length cs)) s0)\<lparr>caps := (caps s0)(1 \<mapsto> c # cs)\<rparr>"
  define tail3 where "tail3 = [Star is_space, Lit ''='', Star is_space,
                     Grp 2 (StarLazy not_hash), Opt comment_part, Eos]"
  have a: "rmatch Bos s0 = [s0]" by (simp add: s0_def start_at_def)
  have b: "rmatch (Star is_space) s0 = [s0]"
    by (rule rmatch_Star_stay) (simp add: r0 run_len_def ident_start_not_space [OF st])
  from key_group [OF st ch r0] obtain xs where
    g: "rmatch (Grp 1 (Seq [Cls is_ident_start, Star is_ident_char])) s0 = x # xs"
    unfolding x_def by blast
  have rx: "rest x = CHR ''='' # value" by (simp add: x_def advance_def r0)
  have t: "rmatch_seq tail3 x = [(advance (Suc (length value)) x)\<lparr>caps := (caps x)(2 \<mapsto> value)\<rparr>]"
    unfolding tail3_def using rx h nl lead by (rule after_key)
  have "rmatch ENV_LINE_PATTERN s0 =
          rmatch_seq (Bos # Star is_space # Grp 1 (Seq [Cls is_ident_start, Star is_ident_char]) # tail3) s0"
    by (simp only: ENV_LINE_PATTERN_def rmatch.simps(9) tail3_def comment_part_def)
  also have "\<dots> = concat (map (rmatch_seq tail3) (x # xs))"
    by (simp only: rmatch_seq.simps(2) a b g list.map concat.simps append_Nil2)
  also have "\<dots> = (advance (Suc (length value)) x)\<lparr>caps := (caps x)(2 \<mapsto> value)\<rparr> #
                     concat (map (rmatch_seq tail3) xs)"
    by (simp only: list.map concat.simps t append_Cons append_Nil)
  finally have "re_match ENV_LINE_PATTERN (key @ ''='' @ value) =
      Some ((advance (Suc (length value)) x)\<lparr>caps := (caps x)(2 \<mapsto> value)\<rparr>)"
    by (simp only: re_match_def first_match_def s0_def [symmetric] list.case)
  moreover have "caps x = [1 \<mapsto> key]" by (simp add: x_def s0_def start_at_def key)
  ultimately show ?thesis by (simp add: group_def advance_def)
qed

lemma format_entry_plain:
  "needs_no_quoting value \<Longrightarrow> format_entry key value = key @ ''='' @ value"
  by (simp add: format_entry_def needs_no_quoting_def)

lemma universal_newlines_id: "CHR 0x0D \<notin> set s \<Longrightarrow> universal_newlines s = s"
  by (induction s rule: universal_newlines.induct) auto

lemma file_lines_single: "s \<noteq> [] \<Longrightarrow> CHR 0x0A \<notin> set s \<Longrightarrow> file_lines s = [s]"
proof (induction s)
  case Nil
  then show ?case by simp
next
  case (Cons c cs)
  then show ?case by (cases cs) auto
qed

lemma file_lines_single_nl: "CHR 0x0A \<notin> set s \<Longrightarrow> file_lines (s @ [CHR 0x0A]) = [s @ [CHR 0x0A]]"
  by (induction s) auto

lemma dropWhile_none: "\<forall>x \<in> set xs. \<not> P x \<Longrightarrow> dropWhile P xs = xs"
  by (cases xs) simp_all

lemma dropWhile_nl_rev: "CHR 0x0A \<notin> set s \<Longrightarrow> dropWhile (\<lambda>c. c = CHR 0x0A) (rev s) = rev s"
  by (rule dropWhile_none) auto

lemma rstrip_nl_id: "CHR 0x0A \<notin> set s \<Longrightarrow> rstrip_nl s = s"
  unfolding rstrip_nl_def by (simp add: dropWhile_nl_rev)

lemma rstrip_nl_one: "CHR 0x0A \<notin> set s \<Longrightarrow> rstrip_nl (s @ [CHR 0x0A]) = s"
  unfolding rstrip_nl_def by (simp add: dropWhile_nl_rev)

lemma strip_Cons:
  assumes "\<not> is_space c"
  shows "\<exists>t. strip (c # cs) = c # t"
proof -
  have "dropWhile is_space (rev (c # cs)) = dropWhile is_space (rev cs) @ [c]"
    using assms by (simp add: dropWhile_append3)
  then show ?thesis using assms by (simp add: strip_def)
qed

lemma strip_id_lead:
  assumes "strip v = v"
  shows "v = [] \<or> \<not> is_space (hd v)"
proof (cases v)
  case Nil
  then show ?thesis by simp
next
  case (Cons c cs)
  have "length (dropWhile is_space (rev (dropWhile is_space v))) \<le>
        length (rev (dropWhile is_space v))"
    by (rule length_dropWhile_le)
  then have "length (strip v) \<le> length (dropWhile is_space v)"
    unfolding strip_def by simp
  with assms have "length v \<le> length (dropWhile is_space v)" by simp
  then have "\<not> is_space c" using Cons length_dropWhile_le [of is_space cs]
    by (auto split: if_splits)
  with Cons show ?thesis by simp
qed

lemma ident_char_plain:
  "is_ident_char c \<Longrightarrow> c \<noteq> CHR 0x0A \<and> c \<noteq> CHR 0x0D \<and> c \<noteq> CHR ''#''"
  by (auto simp: is_ident_char_def is_ident_start_def is_digit_def code_def)

lemma identifier_chars:
  assumes "is_identifier key"
  shows "\<forall>c \<in> set key. is_ident_char c"
proof -
  from assms obtain c cs where "key = c # cs" "is_ident_start c" "\<forall>x \<in> set cs. is_ident_char x"
    by (cases key) (auto simp: is_identifier_def)
  then show ?thesis by (auto simp: is_ident_char_def)
qed

lemma parse_line_roundtrip:
  assumes id: "is_identifier key" and nq: "needs_no_quoting value"
    and st: "strip value = value" and uq: "unquote_value value = value"
    and nl: "CHR 0x0A \<notin> set value"
    and l: "rstrip_nl line0 = key @ ''='' @ value"
  shows "parse_line [] line0 =
           [(key, \<lparr>entry_key = key, entry_value = value, entry_comment = None\<rparr>)]"
proof -
  from id obtain c cs where key: "key = c # cs" and c: "is_ident_start c"
    by (cases key) (auto simp: is_identifier_def)
  from strip_Cons [OF ident_start_not_space [OF c], of "cs @ ''='' @ value"] obtain t where
    t: "strip (key @ ''='' @ value) = c # t" by (auto simp: key)
  have "is_ident_char c" using c by (simp add: is_ident_char_def)
  then have ch: "c \<noteq> CHR ''#''" using ident_char_plain by blast
  have h: "CHR ''#'' \<notin> set value" using nq by (simp add: needs_no_quoting_def)
  from env_line_first_match [OF id h nl strip_id_lead [OF st]] obtain m where
    m: "re_match ENV_LINE_PATTERN (key @ ''='' @ value) = Some m"
       "group m 1 = Some key" "group m 2 = Some value" "group m 3 = None"
    by blast
  have m1: "re_match ENV_LINE_PATTERN (key @ CHR ''='' # value) = Some m"
    using m(1) by simp
  have g1: "group m (Suc 0) = Some key" using m(2) by simp
  show ?thesis
    unfolding parse_line_def l Let_def t
    using ch by (simp add: m1 g1 m(3,4) st uq)
qed

text \<open>
  C2, as the specification words it, fails: a value that needs no quoting can still be
  changed by the parser, which trims white space and removes a pair of quotes around
  the value. The value \<open>"a"\<close>, quotes included, is written as it is and read back as
  \<open>a\<close>; the value made of a tab and \<open>a\<close> is read back as \<open>a\<close>.
\<close>

theorem format_parse_roundtrip_fails:
  "is_identifier ''K'' \<and> needs_no_quoting [CHR 0x22, CHR ''a'', CHR 0x22] \<and>
   parse_file (\<lambda>p. Some (format_entry ''K'' [CHR 0x22, CHR ''a'', CHR 0x22])) ''.env'' =
     [(''K'', \<lparr>entry_key = ''K'', entry_value = ''a'', entry_comment = None\<rparr>)] \<and>
   ''a'' \<noteq> [CHR 0x22, CHR ''a'', CHR 0x22] \<and>
   needs_no_quoting [CHR 0x09, CHR ''a''] \<and>
   parse_file (\<lambda>p. Some (format_entry ''K'' [CHR 0x09, CHR ''a''])) ''.env'' =
     [(''K'', \<lparr>entry_key = ''K'', entry_value = ''a'', entry_comment = None\<rparr>)]"
  by code_simp

text \<open>
  C2, amended. For a key that matches \<open>[A-Za-z_][A-Za-z0-9_]*\<close> and a value that needs
  no quoting, has no white space at either end, is not wrapped in a pair of double or
  single quotes, and holds no newline or carriage return, the file that consists of the
  line \<open>format_entry key value\<close>, with or without its newline, parses to exactly one
  entry, with that key, that value and no comment.
\<close>

theorem format_parse_roundtrip:
  assumes id: "is_identifier key" and nq: "needs_no_quoting value"
    and st: "strip value = value" and uq: "unquote_value value = value"
    and nl: "CHR 0x0A \<notin> set value" and cr: "CHR 0x0D \<notin> set value"
  shows "parse_file (files(p \<mapsto> format_entry key value)) p =
           [(key, \<lparr>entry_key = key, entry_value = value, entry_comment = None\<rparr>)] \<and>
         parse_file (files(p \<mapsto> format_entry key value @ [CHR 0x0A])) p =
           [(key, \<lparr>entry_key = key, entry_value = value, entry_comment = None\<rparr>)]"
proof -
  define line where "line = key @ ''='' @ value"
  have f: "format_entry key value = line"
    unfolding line_def using nq by (rule format_entry_plain)
  have kc: "CHR 0x0A \<notin> set key" "CHR 0x0D \<notin> set key"
    using identifier_chars [OF id] ident_char_plain by blast+
  have lnl: "CHR 0x0A \<notin> set line" and lcr: "CHR 0x0D \<notin> set line"
    using kc nl cr by (auto simp: line_def)
  have ne: "line \<noteq> []" using id by (auto simp: line_def is_identifier_def)
  have r1: "read_lines line = [line]"
    unfolding read_lines_def by (simp add: universal_newlines_id [OF lcr] file_lines_single [OF ne lnl])
  have lcr2: "CHR 0x0D \<notin> set (line @ [CHR 0x0A])" using lcr by simp
  have r2: "read_lines (line @ [CHR 0x0A]) = [line @ [CHR 0x0A]]"
    unfolding read_lines_def
    by (simp only: universal_newlines_id [OF lcr2] file_lines_single_nl [OF lnl])
  have p1: "parse_line [] line =
           [(key, \<lparr>entry_key = key, entry_value = value, entry_comment = None\<rparr>)]"
    using id nq st uq nl rstrip_nl_id [OF lnl] unfolding line_def by (rule parse_line_roundtrip)
  have p2: "parse_line [] (line @ [CHR 0x0A]) =
           [(key, \<lparr>entry_key = key, entry_value = value, entry_comment = None\<rparr>)]"
    using id nq st uq nl rstrip_nl_one [OF lnl] unfolding line_def by (rule parse_line_roundtrip)
  show ?thesis
    unfolding f by (simp add: parse_file_def r1 r2 p1 p2)
qed

theorem format_parse_roundtrip_witness:
  "is_identifier ''DATABASE_URL'' \<and> needs_no_quoting ''postgresql://localhost/db'' \<and>
   parse_file (Map.empty(''.env'' \<mapsto> format_entry ''DATABASE_URL'' ''postgresql://localhost/db''))
     ''.env'' =
     [(''DATABASE_URL'', \<lparr>entry_key = ''DATABASE_URL'',
         entry_value = ''postgresql://localhost/db'', entry_comment = None\<rparr>)]"
proof -
  have a: "is_identifier ''DATABASE_URL''" by code_simp
  have b: "needs_no_quoting ''postgresql://localhost/db''" by code_simp
  have c: "strip ''postgresql://localhost/db'' = ''postgresql://localhost/db''" by code_simp
  have d: "unquote_value ''postgresql://localhost/db'' = ''postgresql://localhost/db''"
    by code_simp
  have e: "CHR 0x0A \<notin> set ''postgresql://localhost/db''" by code_simp
  have f: "CHR 0x0D \<notin> set ''postgresql://localhost/db''" by code_simp
  from format_parse_roundtrip [OF a b c d e f, of Map.empty "''.env''"] a b
  show ?thesis by blast
qed

section \<open>Placeholders\<close>

lemma can_match_Nil: "can_match [] s"
  by (simp add: can_match_def)

lemma can_match_Cons:
  "can_match (r # rs) s \<longleftrightarrow> (\<exists>s' \<in> set (rmatch r s). can_match rs s')"
  by (auto simp: can_match_def)

lemma can_match_LitI:
  "can_match (LitI w # rs) s \<longleftrightarrow>
     lower (take (length w) (rest s)) = w \<and> can_match rs (advance (length w) s)"
  unfolding can_match_Cons by simp

lemma can_match_Lit:
  "can_match (Lit w # rs) s \<longleftrightarrow>
     take (length w) (rest s) = w \<and> can_match rs (advance (length w) s)"
  unfolding can_match_Cons by simp

lemma can_match_Cls:
  "can_match (Cls p # rs) s \<longleftrightarrow>
     rest s \<noteq> [] \<and> p (hd (rest s)) \<and> can_match rs (advance 1 s)"
  unfolding can_match_Cons by (cases "rest s") simp_all

lemma can_match_Opt:
  "can_match (Opt r # rs) s \<longleftrightarrow> can_match (r # rs) s \<or> can_match rs s"
  unfolding can_match_Cons by auto

lemma can_match_Star:
  "can_match (Star p # rs) s \<longleftrightarrow> (\<exists>j \<le> run_len p (rest s). can_match rs (advance j s))"
  unfolding can_match_Cons by (simp only: in_rmatch_Star Bex_def) blast

lemma in_rmatch_Plus:
  "m \<in> set (rmatch (Plus p) s) \<longleftrightarrow> (\<exists>j. 1 \<le> j \<and> j \<le> run_len p (rest s) \<and> m = advance j s)"
proof -
  have "set (rmatch (Plus p) s) = (\<lambda>n. advance n s) ` {n. 1 \<le> n \<and> n \<le> run_len p (rest s)}"
    by (auto simp del: upt_Suc simp: less_Suc_eq_le)
  then show ?thesis by blast
qed

lemma can_match_Plus:
  "can_match (Plus p # rs) s \<longleftrightarrow>
     (\<exists>j. 1 \<le> j \<and> j \<le> run_len p (rest s) \<and> can_match rs (advance j s))"
  unfolding can_match_Cons by (simp only: in_rmatch_Plus Bex_def) blast

lemma can_match_Bos: "can_match (Bos # rs) s \<longleftrightarrow> pos s = 0 \<and> can_match rs s"
  unfolding can_match_Cons by simp

lemma can_match_Eos:
  "can_match (Eos # rs) s \<longleftrightarrow> (rest s = [] \<or> rest s = [CHR 0x0A]) \<and> can_match rs s"
  unfolding can_match_Cons by simp


lemma search_from_iff:
  "search_from r p cs \<noteq> None \<longleftrightarrow>
     (\<exists>i \<le> length cs. rmatch r (start_at (p + i) (drop i cs)) \<noteq> [])"
proof (induction cs arbitrary: p)
  case Nil
  then show ?case by (simp add: first_match_def split: list.splits)
next
  case (Cons c cs)
  have "search_from r p (c # cs) \<noteq> None \<longleftrightarrow>
          rmatch r (start_at p (c # cs)) \<noteq> [] \<or> search_from r (Suc p) cs \<noteq> None"
    by (simp add: first_match_def split: list.splits option.splits)
  also have "\<dots> \<longleftrightarrow> rmatch r (start_at p (c # cs)) \<noteq> [] \<or>
          (\<exists>i \<le> length cs. rmatch r (start_at (Suc p + i) (drop i cs)) \<noteq> [])"
    by (simp only: Cons.IH)
  also have "\<dots> \<longleftrightarrow> (\<exists>i \<le> length (c # cs). rmatch r (start_at (p + i) (drop i (c # cs))) \<noteq> [])"
  proof
    assume "rmatch r (start_at p (c # cs)) \<noteq> [] \<or>
          (\<exists>i \<le> length cs. rmatch r (start_at (Suc p + i) (drop i cs)) \<noteq> [])"
    then show "\<exists>i \<le> length (c # cs). rmatch r (start_at (p + i) (drop i (c # cs))) \<noteq> []"
    proof
      assume "rmatch r (start_at p (c # cs)) \<noteq> []"
      then show ?thesis by (intro exI [of _ 0]) simp
    next
      assume "\<exists>i \<le> length cs. rmatch r (start_at (Suc p + i) (drop i cs)) \<noteq> []"
      then obtain i where "i \<le> length cs" "rmatch r (start_at (Suc p + i) (drop i cs)) \<noteq> []"
        by blast
      then show ?thesis by (intro exI [of _ "Suc i"]) simp
    qed
  next
    assume "\<exists>i \<le> length (c # cs). rmatch r (start_at (p + i) (drop i (c # cs))) \<noteq> []"
    then obtain i where i: "i \<le> length (c # cs)" "rmatch r (start_at (p + i) (drop i (c # cs))) \<noteq> []"
      by blast
    show "rmatch r (start_at p (c # cs)) \<noteq> [] \<or>
          (\<exists>i \<le> length cs. rmatch r (start_at (Suc p + i) (drop i cs)) \<noteq> [])"
    proof (cases i)
      case 0
      with i show ?thesis by simp
    next
      case (Suc k)
      with i have "k \<le> length cs" "rmatch r (start_at (Suc p + k) (drop k cs)) \<noteq> []" by simp_all
      then show ?thesis by blast
    qed
  qed
  finally show ?case .
qed


lemma re_search_iff:
  "re_search (Seq rs) v \<noteq> None \<longleftrightarrow>
     (\<exists>pre post. v = pre @ post \<and> can_match rs (start_at (length pre) post))"
proof -
  have "re_search (Seq rs) v \<noteq> None \<longleftrightarrow>
      (\<exists>i \<le> length v. can_match rs (start_at i (drop i v)))"
    unfolding re_search_def search_from_iff can_match_def by simp
  also have "\<dots> \<longleftrightarrow> (\<exists>pre post. v = pre @ post \<and> can_match rs (start_at (length pre) post))"
  proof
    assume "\<exists>i \<le> length v. can_match rs (start_at i (drop i v))"
    then obtain i where i: "i \<le> length v" "can_match rs (start_at i (drop i v))" by blast
    have "v = take i v @ drop i v" "length (take i v) = i" using i(1) by simp_all
    with i(2) show "\<exists>pre post. v = pre @ post \<and> can_match rs (start_at (length pre) post)"
      by (intro exI [of _ "take i v"] exI [of _ "drop i v"]) simp
  next
    assume "\<exists>pre post. v = pre @ post \<and> can_match rs (start_at (length pre) post)"
    then obtain pre post where "v = pre @ post" "can_match rs (start_at (length pre) post)"
      by blast
    then show "\<exists>i \<le> length v. can_match rs (start_at i (drop i v))"
      by (intro exI [of _ "length pre"]) simp
  qed
  finally show ?thesis .
qed

lemma advance_start_at: "advance n (start_at q u) = start_at (q + n) (drop n u)"
  by (simp add: advance_def start_at_def)

lemma rest_start_at: "rest (start_at q u) = u"
  by (simp add: start_at_def)

lemma ci_prefix_iff:
  "lower (take (length w) u) = w \<longleftrightarrow> (\<exists>a r. u = a @ r \<and> lower a = w)"
proof
  assume "lower (take (length w) u) = w"
  then have "u = take (length w) u @ drop (length w) u \<and> lower (take (length w) u) = w"
    by simp
  then show "\<exists>a r. u = a @ r \<and> lower a = w" by blast
next
  assume "\<exists>a r. u = a @ r \<and> lower a = w"
  then obtain a r where ar: "u = a @ r" "lower a = w" by blast
  then have "length a = length w" by (auto simp: lower_def)
  with ar show "lower (take (length w) u) = w" by simp
qed

lemma at_LitI:
  "can_match (LitI w # rs) (start_at q u) \<longleftrightarrow>
     (\<exists>a r. u = a @ r \<and> lower a = w \<and> can_match rs (start_at (q + length w) r))"
proof
  assume "can_match (LitI w # rs) (start_at q u)"
  then have l: "lower (take (length w) u) = w"
    and c: "can_match rs (start_at (q + length w) (drop (length w) u))"
    by (simp_all add: can_match_LitI rest_start_at advance_start_at)
  have "u = take (length w) u @ drop (length w) u" by simp
  with l c show "\<exists>a r. u = a @ r \<and> lower a = w \<and> can_match rs (start_at (q + length w) r)"
    by blast
next
  assume "\<exists>a r. u = a @ r \<and> lower a = w \<and> can_match rs (start_at (q + length w) r)"
  then obtain a r where ar: "u = a @ r" "lower a = w" "can_match rs (start_at (q + length w) r)"
    by blast
  then have len: "length a = length w" by (auto simp: lower_def)
  with ar have "lower (take (length w) u) = w" "drop (length w) u = r" by simp_all
  with ar(3) show "can_match (LitI w # rs) (start_at q u)"
    by (simp add: can_match_LitI rest_start_at advance_start_at)
qed

lemma at_Cls:
  "can_match (Cls p # rs) (start_at q u) \<longleftrightarrow>
     (\<exists>c r. u = c # r \<and> p c \<and> can_match rs (start_at (Suc q) r))"
  by (cases u) (simp_all add: can_match_Cls rest_start_at advance_start_at)

lemma run_len_ge: "\<forall>c \<in> set a. p c \<Longrightarrow> length a \<le> run_len p (a @ r)"
  by (induction a) (simp_all add: run_len_def)

lemma at_Star:
  "can_match (Star p # rs) (start_at q u) \<longleftrightarrow>
     (\<exists>a r. u = a @ r \<and> (\<forall>c \<in> set a. p c) \<and> can_match rs (start_at (q + length a) r))"
proof
  assume "can_match (Star p # rs) (start_at q u)"
  then obtain j where j: "j \<le> run_len p u" "can_match rs (start_at (q + j) (drop j u))"
    by (auto simp: can_match_Star rest_start_at advance_start_at)
  have "j \<le> length u" using j(1) run_len_le [of p u] by simp
  then have "u = take j u @ drop j u" "length (take j u) = j" by simp_all
  moreover have "\<forall>c \<in> set (take j u). p c" using j(1) by (rule take_run_all)
  ultimately show "\<exists>a r. u = a @ r \<and> (\<forall>c \<in> set a. p c) \<and>
      can_match rs (start_at (q + length a) r)"
    using j(2) by metis
next
  assume "\<exists>a r. u = a @ r \<and> (\<forall>c \<in> set a. p c) \<and> can_match rs (start_at (q + length a) r)"
  then obtain a r where ar: "u = a @ r" "\<forall>c \<in> set a. p c"
    "can_match rs (start_at (q + length a) r)" by blast
  have "length a \<le> run_len p u" unfolding ar(1) using ar(2) by (rule run_len_ge)
  moreover have "drop (length a) u = r" by (simp add: ar(1))
  ultimately show "can_match (Star p # rs) (start_at q u)"
    using ar(3) by (auto simp: can_match_Star rest_start_at advance_start_at)
qed

lemma at_Plus:
  "can_match (Plus p # rs) (start_at q u) \<longleftrightarrow>
     (\<exists>a r. u = a @ r \<and> a \<noteq> [] \<and> (\<forall>c \<in> set a. p c) \<and>
            can_match rs (start_at (q + length a) r))"
proof
  assume "can_match (Plus p # rs) (start_at q u)"
  then obtain j where j: "1 \<le> j" "j \<le> run_len p u" "can_match rs (start_at (q + j) (drop j u))"
    by (auto simp: can_match_Plus rest_start_at advance_start_at)
  have "j \<le> length u" using j(2) run_len_le [of p u] by simp
  then have "u = take j u @ drop j u" "length (take j u) = j" by simp_all
  moreover have "\<forall>c \<in> set (take j u). p c" using j(2) by (rule take_run_all)
  moreover have "take j u \<noteq> []" using j(1) \<open>length (take j u) = j\<close> by auto
  ultimately show "\<exists>a r. u = a @ r \<and> a \<noteq> [] \<and> (\<forall>c \<in> set a. p c) \<and>
      can_match rs (start_at (q + length a) r)"
    using j(3) by metis
next
  assume "\<exists>a r. u = a @ r \<and> a \<noteq> [] \<and> (\<forall>c \<in> set a. p c) \<and>
      can_match rs (start_at (q + length a) r)"
  then obtain a r where ar: "u = a @ r" "a \<noteq> []" "\<forall>c \<in> set a. p c"
    "can_match rs (start_at (q + length a) r)" by blast
  have "length a \<le> run_len p u" unfolding ar(1) using ar(3) by (rule run_len_ge)
  moreover have "drop (length a) u = r" by (simp add: ar(1))
  moreover have "1 \<le> length a" using ar(2) by (cases a) simp_all
  ultimately show "can_match (Plus p # rs) (start_at q u)"
    using ar(4) unfolding can_match_Plus rest_start_at advance_start_at by blast
qed

lemma search_LitI: "re_search (Seq [LitI w]) v \<noteq> None \<longleftrightarrow> contains_ci w v"
proof -
  have L: "re_search (Seq [LitI w]) v \<noteq> None \<longleftrightarrow>
      (\<exists>pre post. v = pre @ post \<and> (\<exists>a r. post = a @ r \<and> lower a = w))"
    unfolding re_search_iff at_LitI by (simp add: can_match_Nil)
  show ?thesis unfolding L contains_ci_def by blast
qed

lemma search_sep:
  "re_search (Seq [LitI w1, Opt (Cls underscore_or_space), LitI w2]) v \<noteq> None \<longleftrightarrow>
     contains_ci_sep w1 w2 v"
proof -
  define F where "F = (\<exists>pre post. v = pre @ post \<and> (\<exists>a r. post = a @ r \<and> lower a = w1 \<and>
      ((\<exists>c r'. r = c # r' \<and> underscore_or_space c \<and> (\<exists>b r''. r' = b @ r'' \<and> lower b = w2)) \<or>
       (\<exists>b r''. r = b @ r'' \<and> lower b = w2))))"
  have L: "re_search (Seq [LitI w1, Opt (Cls underscore_or_space), LitI w2]) v \<noteq> None \<longleftrightarrow> F"
    unfolding re_search_iff at_LitI can_match_Opt at_Cls F_def by (simp add: can_match_Nil)
  have "F \<longleftrightarrow> contains_ci_sep w1 w2 v"
  proof
    assume F
    then obtain pre a r where v: "v = pre @ a @ r" and a: "lower a = w1"
      and o: "(\<exists>c r'. r = c # r' \<and> underscore_or_space c \<and> (\<exists>b post. r' = b @ post \<and> lower b = w2))
          \<or> (\<exists>b post. r = b @ post \<and> lower b = w2)"
      unfolding F_def by blast
    from o show "contains_ci_sep w1 w2 v"
    proof
      assume "\<exists>c r'. r = c # r' \<and> underscore_or_space c \<and> (\<exists>b post. r' = b @ post \<and> lower b = w2)"
      then obtain c b post where "r = c # b @ post" "underscore_or_space c" "lower b = w2" by blast
      with v a have "v = pre @ a @ [c] @ b @ post \<and> lower a = w1 \<and> lower b = w2 \<and>
        ([c] = [] \<or> (\<exists>d. [c] = [d] \<and> underscore_or_space d))" by simp
      then show ?thesis unfolding contains_ci_sep_def by blast
    next
      assume "\<exists>b post. r = b @ post \<and> lower b = w2"
      then obtain b post where "r = b @ post" "lower b = w2" by blast
      with v a have "v = pre @ a @ [] @ b @ post \<and> lower a = w1 \<and> lower b = w2 \<and>
        (([]::string) = [] \<or> (\<exists>d. [] = [d] \<and> underscore_or_space d))" by simp
      then show ?thesis unfolding contains_ci_sep_def by blast
    qed
  next
    assume "contains_ci_sep w1 w2 v"
    then obtain pre a sep b post where v: "v = pre @ a @ sep @ b @ post" and a: "lower a = w1"
      and b: "lower b = w2" and sep: "sep = [] \<or> (\<exists>c. sep = [c] \<and> underscore_or_space c)"
      unfolding contains_ci_sep_def by blast
    from sep show F
    proof
      assume "sep = []"
      with v have "v = pre @ (a @ b @ post)" by simp
      with a b show F unfolding F_def by blast
    next
      assume "\<exists>c. sep = [c] \<and> underscore_or_space c"
      then obtain c where c: "sep = [c]" "underscore_or_space c" by blast
      with v have "v = pre @ (a @ c # b @ post)" by simp
      with a b c(2) show F unfolding F_def by blast
    qed
  qed
  with L show ?thesis by simp
qed

lemma search_your_here:
  "re_search (Seq [LitI ''your'', Cls underscore_or_space, Star not_newline, LitI ''here'']) v
     \<noteq> None \<longleftrightarrow> contains_your_here v"
proof -
  define H where "H = (\<lambda>r2. \<exists>b r3. r2 = b @ r3 \<and> lower b = ''here'')"
  define M where "M = (\<lambda>r1. \<exists>mid r2. r1 = mid @ r2 \<and> (\<forall>x \<in> set mid. not_newline x) \<and> H r2)"
  define C where "C = (\<lambda>r. \<exists>c r1. r = c # r1 \<and> underscore_or_space c \<and> M r1)"
  define Y where "Y = (\<lambda>post. \<exists>a r. post = a @ r \<and> lower a = ''your'' \<and> C r)"
  have h: "can_match [LitI ''here''] (start_at q u) \<longleftrightarrow> H u" for q u
    unfolding at_LitI H_def by (simp add: can_match_Nil)
  have m: "can_match [Star not_newline, LitI ''here''] (start_at q u) \<longleftrightarrow> M u" for q u
    unfolding at_Star h M_def ..
  have c: "can_match [Cls underscore_or_space, Star not_newline, LitI ''here''] (start_at q u)
       \<longleftrightarrow> C u" for q u
    unfolding at_Cls m C_def ..
  have y: "can_match [LitI ''your'', Cls underscore_or_space, Star not_newline, LitI ''here'']
       (start_at q u) \<longleftrightarrow> Y u" for q u
    unfolding at_LitI c Y_def ..
  have L: "re_search (Seq [LitI ''your'', Cls underscore_or_space, Star not_newline,
                           LitI ''here'']) v \<noteq> None \<longleftrightarrow> (\<exists>pre post. v = pre @ post \<and> Y post)"
    unfolding re_search_iff y ..
  have "(\<exists>pre post. v = pre @ post \<and> Y post) \<longleftrightarrow> contains_your_here v"
  proof
    assume "\<exists>pre post. v = pre @ post \<and> Y post"
    then obtain pre post where v: "v = pre @ post" and "Y post" by blast
    then obtain a r where a: "post = a @ r" "lower a = ''your''" and "C r"
      unfolding Y_def by blast
    then obtain c r1 where c: "r = c # r1" "underscore_or_space c" and "M r1"
      unfolding C_def by blast
    then obtain mid r2 where mid: "r1 = mid @ r2" "\<forall>x \<in> set mid. not_newline x" and "H r2"
      unfolding M_def by blast
    then obtain b r3 where b: "r2 = b @ r3" "lower b = ''here''"
      unfolding H_def by blast
    have nl: "CHR 0x0A \<notin> set mid" using mid(2) by (auto simp: not_newline_def)
    have "v = pre @ a @ [c] @ mid @ b @ r3" by (simp add: v a(1) c(1) mid(1) b(1))
    then show "contains_your_here v"
      unfolding contains_your_here_def using a(2) c(2) nl b(2) by blast
  next
    assume "contains_your_here v"
    then obtain pre a c mid b post where v: "v = pre @ a @ [c] @ mid @ b @ post"
      and p: "lower a = ''your''" "underscore_or_space c" "CHR 0x0A \<notin> set mid"
        "lower b = ''here''"
      unfolding contains_your_here_def by blast
    have "H (b @ post)" unfolding H_def using p(4) by blast
    moreover have "\<forall>x \<in> set mid. not_newline x" using p(3) by (auto simp: not_newline_def)
    ultimately have "M (mid @ b @ post)" unfolding M_def by blast
    then have "C (c # mid @ b @ post)" unfolding C_def using p(2) by blast
    then have "Y (a @ c # mid @ b @ post)" unfolding Y_def using p(1) by blast
    moreover have "v = pre @ (a @ c # mid @ b @ post)" using v by simp
    ultimately show "\<exists>pre post. v = pre @ post \<and> Y post" by blast
  qed
  with L show ?thesis by simp
qed

lemma lower_xxx_split:
  "lower mid = ''xxx'' \<longleftrightarrow> (\<exists>a x. mid = a @ [x] \<and> lower a = ''xx'' \<and> is_x x)"
proof
  assume l: "lower mid = ''xxx''"
  then have "length mid = 3" by (auto simp: lower_def dest: arg_cong [where f = length])
  then obtain m1 m2 m3 where mid: "mid = [m1, m2, m3]"
    by (cases mid; cases "tl mid"; cases "tl (tl mid)") auto
  with l have "mid = [m1, m2] @ [m3] \<and> lower [m1, m2] = ''xx'' \<and> is_x m3"
    by (simp add: lower_def is_x_def)
  then show "\<exists>a x. mid = a @ [x] \<and> lower a = ''xx'' \<and> is_x x" by blast
next
  assume "\<exists>a x. mid = a @ [x] \<and> lower a = ''xx'' \<and> is_x x"
  then show "lower mid = ''xxx''" by (auto simp: lower_def is_x_def)
qed

lemma search_xxx:
  "re_search (Seq [LitI ''xx'', Plus is_x]) v \<noteq> None \<longleftrightarrow> contains_ci ''xxx'' v"
proof -
  define F where "F = (\<exists>pre post. v = pre @ post \<and> (\<exists>a r. post = a @ r \<and> lower a = ''xx'' \<and>
      (\<exists>xs r'. r = xs @ r' \<and> xs \<noteq> [] \<and> (\<forall>c \<in> set xs. is_x c))))"
  have L: "re_search (Seq [LitI ''xx'', Plus is_x]) v \<noteq> None \<longleftrightarrow> F"
    unfolding re_search_iff at_LitI at_Plus F_def by (simp add: can_match_Nil)
  have "F \<longleftrightarrow> contains_ci ''xxx'' v"
  proof
    assume F
    then obtain pre a xs r' where v: "v = pre @ a @ xs @ r'" and a: "lower a = ''xx''"
      and xs: "xs \<noteq> []" "\<forall>c \<in> set xs. is_x c"
      unfolding F_def by blast
    from xs obtain x xs' where x: "xs = x # xs'" "is_x x" by (cases xs) auto
    have "lower (a @ [x]) = ''xxx''" using a x(2) lower_xxx_split by blast
    moreover have "v = pre @ (a @ [x]) @ (xs' @ r')" using v x(1) by simp
    ultimately show "contains_ci ''xxx'' v" unfolding contains_ci_def by blast
  next
    assume "contains_ci ''xxx'' v"
    then obtain pre mid post where v: "v = pre @ mid @ post" and l: "lower mid = ''xxx''"
      unfolding contains_ci_def by blast
    from l obtain a x where m: "mid = a @ [x]" "lower a = ''xx''" "is_x x"
      unfolding lower_xxx_split by blast
    have "v = pre @ (a @ ([x] @ post))" using v m(1) by simp
    moreover have "[x] \<noteq> [] \<and> (\<forall>c \<in> set [x]. is_x c)" using m(3) by simp
    ultimately show F unfolding F_def using m(2) by blast
  qed
  with L show ?thesis by simp
qed

lemma pos_start_at: "pos (start_at q u) = q"
  by (simp add: start_at_def)

lemma at_line:
  "can_match [Bos, Lit w, Eos] (start_at q u) \<longleftrightarrow>
     q = 0 \<and> take (length w) u = w \<and>
     (drop (length w) u = [] \<or> drop (length w) u = [CHR 0x0A])"
  by (simp add: can_match_Bos can_match_Lit can_match_Eos can_match_Nil rest_start_at
        advance_start_at pos_start_at)

lemma search_line:
  "re_search (Seq [Bos, Lit w, Eos]) v \<noteq> None \<longleftrightarrow> is_line w v"
proof -
  have L: "re_search (Seq [Bos, Lit w, Eos]) v \<noteq> None \<longleftrightarrow>
      take (length w) v = w \<and> (drop (length w) v = [] \<or> drop (length w) v = [CHR 0x0A])"
    unfolding re_search_iff at_line by auto
  have "take (length w) v = w \<and> (drop (length w) v = [] \<or> drop (length w) v = [CHR 0x0A])
        \<longleftrightarrow> v = w \<or> v = w @ [CHR 0x0A]"
  proof
    assume a: "take (length w) v = w \<and> (drop (length w) v = [] \<or> drop (length w) v = [CHR 0x0A])"
    then have "take (length w) v @ drop (length w) v = w \<or>
               take (length w) v @ drop (length w) v = w @ [CHR 0x0A]"
      by auto
    then show "v = w \<or> v = w @ [CHR 0x0A]" by (simp only: append_take_drop_id)
  next
    assume "v = w \<or> v = w @ [CHR 0x0A]"
    then show "take (length w) v = w \<and>
        (drop (length w) v = [] \<or> drop (length w) v = [CHR 0x0A])" by auto
  qed
  with L show ?thesis by (simp add: is_line_def)
qed

lemma strip_Nil_iff: "strip v = [] \<longleftrightarrow> (\<forall>c \<in> set v. is_space c)"
proof -
  have "strip v = [] \<longleftrightarrow> (\<forall>c \<in> set (dropWhile is_space v). is_space c)"
    by (simp add: strip_def dropWhile_eq_Nil_conv)
  also have "\<dots> \<longleftrightarrow> dropWhile is_space v = []"
  proof
    assume a: "\<forall>c \<in> set (dropWhile is_space v). is_space c"
    show "dropWhile is_space v = []"
    proof (cases "dropWhile is_space v")
      case (Cons x xs)
      then have "\<not> is_space x" using hd_dropWhile [of is_space v] by simp
      with a Cons show ?thesis by simp
    qed simp
  next
    assume "dropWhile is_space v = []"
    then show "\<forall>c \<in> set (dropWhile is_space v). is_space c"
      by (simp only: list.set(1) ball_empty)
  qed
  also have "\<dots> \<longleftrightarrow> (\<forall>c \<in> set v. is_space c)" by (simp add: dropWhile_eq_Nil_conv)
  finally show ?thesis .
qed

lemma any_pattern_found_patterns:
  "any_pattern_found PLACEHOLDER_PATTERNS v \<longleftrightarrow>
     contains_your_here v \<or> contains_ci ''placeholder'' v \<or>
     contains_ci_sep ''change'' ''me'' v \<or> contains_ci_sep ''replace'' ''this'' v \<or>
     contains_ci ''todo'' v \<or> contains_ci ''xxx'' v \<or>
     is_line ''admin123'' v \<or> is_line ''password123'' v \<or> is_line ''test123'' v \<or>
     is_line ''secret'' v \<or> is_line ''changeme'' v"
  unfolding PLACEHOLDER_PATTERNS_def any_pattern_found.simps
    search_your_here search_LitI search_sep search_xxx search_line
  by simp

lemma is_placeholder_full:
  "is_placeholder v \<longleftrightarrow>
     (\<forall>c \<in> set v. is_space c) \<or>
     contains_your_here v \<or> contains_ci ''placeholder'' v \<or>
     contains_ci_sep ''change'' ''me'' v \<or> contains_ci_sep ''replace'' ''this'' v \<or>
     contains_ci ''todo'' v \<or> contains_ci ''xxx'' v \<or>
     is_line ''admin123'' v \<or> is_line ''password123'' v \<or> is_line ''test123'' v \<or>
     is_line ''secret'' v \<or> is_line ''changeme'' v"
proof (cases "\<forall>c \<in> set v. is_space c")
  case True
  then have "strip v = []" by (simp only: strip_Nil_iff)
  with True show ?thesis by (simp add: is_placeholder_def)
next
  case False
  have "strip v \<noteq> []" using False strip_Nil_iff [of v] by blast
  moreover have "v \<noteq> []" using False by auto
  ultimately have ip: "is_placeholder v \<longleftrightarrow> any_pattern_found PLACEHOLDER_PATTERNS v"
    by (simp add: is_placeholder_def)
  show ?thesis unfolding ip any_pattern_found_patterns using False by blast
qed

text \<open>
  C1, as the specification words it, fails: the optional separator of \<open>change me\<close> and
  \<open>replace this\<close> is an underscore or any white-space character, not only a blank.
\<close>

theorem is_placeholder_counterexample:
  "is_placeholder (''change'' @ [CHR 0x09] @ ''me'') \<and>
   \<not> spec_isPlaceholder (''change'' @ [CHR 0x09] @ ''me'')"
  by code_simp

text \<open>
  C1, amended. For every value other than one of the five literals followed by a single
  newline, \<open>is_placeholder\<close> holds exactly when the value is empty or white space only,
  or holds, in any mix of cases, \<open>your\<close> + an underscore or white-space character + any
  characters but a newline + \<open>here\<close>, or \<open>placeholder\<close>, or \<open>change\<close> and \<open>me\<close> with at
  most one underscore or white-space character between them, or \<open>replace\<close> and \<open>this\<close>
  likewise, or \<open>todo\<close>, or \<open>xxx\<close>, or when the value is one of the five literals.
\<close>

theorem is_placeholder_iff:
  assumes "v \<notin> set (map (\<lambda>w. w @ [CHR 0x0A]) PLACEHOLDER_LITERALS)"
  shows "is_placeholder v \<longleftrightarrow>
     (\<forall>c \<in> set v. is_space c) \<or>
     contains_your_here v \<or> contains_ci ''placeholder'' v \<or>
     contains_ci_sep ''change'' ''me'' v \<or> contains_ci_sep ''replace'' ''this'' v \<or>
     contains_ci ''todo'' v \<or> contains_ci ''xxx'' v \<or>
     v \<in> set PLACEHOLDER_LITERALS"
proof -
  have l: "is_line w v \<longleftrightarrow> v = w" if "w \<in> set PLACEHOLDER_LITERALS" for w
    using assms that by (auto simp: is_line_def)
  have "is_line ''admin123'' v \<or> is_line ''password123'' v \<or> is_line ''test123'' v \<or>
        is_line ''secret'' v \<or> is_line ''changeme'' v \<longleftrightarrow> v \<in> set PLACEHOLDER_LITERALS"
    using l [of "''admin123''"] l [of "''password123''"] l [of "''test123''"]
      l [of "''secret''"] l [of "''changeme''"]
    by (simp add: PLACEHOLDER_LITERALS_def)
  then show ?thesis unfolding is_placeholder_full [of v] by blast
qed

theorem is_placeholder_iff_witness:
  "''YOUR_API_KEY_HERE'' \<notin> set (map (\<lambda>w. w @ [CHR 0x0A]) PLACEHOLDER_LITERALS) \<and>
   is_placeholder ''YOUR_API_KEY_HERE'' \<and>
   ((\<forall>c \<in> set ''YOUR_API_KEY_HERE''. is_space c) \<or>
     contains_your_here ''YOUR_API_KEY_HERE'' \<or> contains_ci ''placeholder'' ''YOUR_API_KEY_HERE'' \<or>
     contains_ci_sep ''change'' ''me'' ''YOUR_API_KEY_HERE'' \<or>
     contains_ci_sep ''replace'' ''this'' ''YOUR_API_KEY_HERE'' \<or>
     contains_ci ''todo'' ''YOUR_API_KEY_HERE'' \<or> contains_ci ''xxx'' ''YOUR_API_KEY_HERE'' \<or>
     ''YOUR_API_KEY_HERE'' \<in> set PLACEHOLDER_LITERALS) \<and>
   is_placeholder [] \<and> is_placeholder ''   '' \<and> is_placeholder ''placeholder'' \<and>
   is_placeholder ''change_me'' \<and> is_placeholder ''admin123'' \<and>
   is_placeholder ''password123'' \<and> \<not> is_placeholder ''sk-1234567890abcdef'' \<and>
   \<not> is_placeholder ''postgresql://localhost/db''"
proof -
  have a: "''YOUR_API_KEY_HERE'' \<notin> set (map (\<lambda>w. w @ [CHR 0x0A]) PLACEHOLDER_LITERALS)"
    by code_simp
  have b: "is_placeholder ''YOUR_API_KEY_HERE''" by code_simp
  have c: "is_placeholder [] \<and> is_placeholder ''   '' \<and> is_placeholder ''placeholder'' \<and>
   is_placeholder ''change_me'' \<and> is_placeholder ''admin123'' \<and>
   is_placeholder ''password123'' \<and> \<not> is_placeholder ''sk-1234567890abcdef'' \<and>
   \<not> is_placeholder ''postgresql://localhost/db''"
    by code_simp
  from is_placeholder_iff [OF a] a b c show ?thesis by blast
qed

end
